theory Spec2Isabelle
  imports Complex_Main
begin

section \<open>Data model\<close>

text \<open>
  An atom (Go type \<open>Text\<close>, a byte slice) is a list of bytes; a byte is a \<open>char\<close>.

  Tokens are shared through pointers (\<open>*Token\<close>) and mutated while the dictionary is
  loaded, so they live in an explicit store: a list of token records, a reference being the
  index of its record. The only tokens created outside the loader are the one-atom fallback
  tokens of \<open>segmentWords\<close> (\<open>&Token{text: []Text{text[current]}, frequency: 1, distance: 32,
  pos: "x"}\<close>); they are never mutated and never compared by address, so a pointer to one is
  represented by the atom that determines it (\<open>Synthetic\<close>).

  Distances are \<open>float32\<close> numbers, modelled by the real numbers they denote; the
  rounding of the operations on them is \<open>float32\<close> below.
\<close>

type_synonym Text = string

datatype tokref = Stored nat | Synthetic Text

record segment =
  start :: int
  endp :: int
  token :: "tokref option"

record Token =
  toktext :: "Text list"
  frequency :: int
  distance :: real
  pos :: string
  segments :: "segment list"
  synonyms :: "tokref list"

type_synonym heap = "Token list"

definition fallbackToken :: "Text \<Rightarrow> Token" where
  "fallbackToken a =
     \<lparr>toktext = [a], frequency = 1, distance = 32, pos = ''x'', segments = [], synonyms = []\<rparr>"

fun deref :: "heap \<Rightarrow> tokref \<Rightarrow> Token" where
  "deref h (Stored i) = h ! i"
| "deref h (Synthetic a) = fallbackToken a"

record jumper =
  minDistance :: real
  jtoken :: "tokref option"

text \<open>
  Floating point. A \<open>float32\<close> is modelled by the real number it denotes, and an operation of
  the program on \<open>float32\<close> values (the sum of \<open>updateJumper\<close>, the difference and the
  conversions of the distance assignment) by the exact operation followed by \<open>float32\<close>, the
  rounding of IEEE 754 binary32 in the mode Go uses: to the nearest multiple of
  \<open>2 ^ (e - 23)\<close>, where \<open>2 ^ e\<close> is the power of two at or below the magnitude of the value
  and \<open>e\<close> is at least -126 (below, the numbers are subnormal), a value half-way between two
  multiples going to the even one (\<open>roundHalfEven\<close>). The model has no largest exponent: the
  program gives an infinity from \<open>2 ^ 128\<close> on, which no sum of distances reaches on a text
  that fits a memory (a distance is at most 63). \<open>math.Log2\<close> is taken as the real logarithm
  to base 2, which the Go function is at the powers of two.
\<close>

definition roundHalfEven :: "real \<Rightarrow> int" where
  "roundHalfEven q =
     (let n = \<lfloor>q\<rfloor>
      in if q - of_int n < 1 / 2 \<or> (q - of_int n = 1 / 2 \<and> even n) then n else n + 1)"

definition float32 :: "real \<Rightarrow> real" where
  "float32 x =
     (if x = 0 then 0
      else let e = max \<lfloor>log 2 \<bar>x\<bar>\<rfloor> (- 126) - 23
           in of_int (roundHalfEven (x / 2 powr of_int e)) * 2 powr of_int e)"

section \<open>The atom tokenizer\<close>

datatype wordType = wordAlpha | wordNumber | wordOther

text \<open>
  \<open>utf8.DecodeRune\<close> of the Go standard library: the first scalar of a byte slice and its
  width in bytes. An empty slice gives \<open>(RuneError, 0)\<close>, an encoding that is not valid UTF-8
  (a stray continuation byte, an overlong form, a surrogate, a value above U+10FFFF, a
  truncated sequence) gives \<open>(RuneError, 1)\<close>. Runes are natural numbers.
\<close>

definition RuneError :: nat where
  "RuneError = 0xFFFD"

fun DecodeRune :: "Text \<Rightarrow> nat \<times> nat" where
  "DecodeRune [] = (RuneError, 0)"
| "DecodeRune (c0 # p) =
     (let p0 = (of_char c0 :: nat) in
      if p0 < 0x80 then (p0, 1)
      else if p0 < 0xC2 \<or> 0xF4 < p0 then (RuneError, 1)
      else
        let sz = (if p0 < 0xE0 then 2 else if p0 < 0xF0 then 3 else 4 :: nat);
            lo = (if p0 = 0xE0 then 0xA0 else if p0 = 0xF0 then 0x90 else 0x80 :: nat);
            hi = (if p0 = 0xED then 0x9F else if p0 = 0xF4 then 0x8F else 0xBF :: nat)
        in if length (c0 # p) < sz then (RuneError, 1)
           else
             let b1 = (of_char (p ! 0) :: nat) in
             if b1 < lo \<or> hi < b1 then (RuneError, 1)
             else if sz \<le> 2 then ((p0 mod 0x20) * 0x40 + b1 mod 0x40, 2)
             else
               let b2 = (of_char (p ! 1) :: nat) in
               if b2 < 0x80 \<or> 0xBF < b2 then (RuneError, 1)
               else if sz \<le> 3
                 then ((p0 mod 0x10) * 0x1000 + (b1 mod 0x40) * 0x40 + b2 mod 0x40, 3)
               else
                 let b3 = (of_char (p ! 2) :: nat) in
                 if b3 < 0x80 \<or> 0xBF < b3 then (RuneError, 1)
                 else ((p0 mod 0x08) * 0x40000 + (b1 mod 0x40) * 0x1000
                        + (b2 mod 0x40) * 0x40 + b3 mod 0x40, 4))"

text \<open>
  \<open>unicode.IsLetter\<close> and \<open>unicode.IsNumber\<close> of the Go standard library. Up to U+00FF they
  read the fixed Latin-1 property table, written out here; above it they search the range
  tables \<open>unicode.Letter\<close> and \<open>unicode.Number\<close>, which depend on the Unicode version of the
  Go release and are parameters of the model (record \<open>unicode\<close>).
\<close>

record unicode =
  Letter :: "nat \<Rightarrow> bool"
  Number :: "nat \<Rightarrow> bool"

definition IsLetter :: "unicode \<Rightarrow> nat \<Rightarrow> bool" where
  "IsLetter U r =
     (if r \<le> 0xFF
      then (0x41 \<le> r \<and> r \<le> 0x5A) \<or> (0x61 \<le> r \<and> r \<le> 0x7A) \<or> r = 0xAA \<or> r = 0xB5
           \<or> r = 0xBA \<or> (0xC0 \<le> r \<and> r \<le> 0xD6) \<or> (0xD8 \<le> r \<and> r \<le> 0xF6) \<or> 0xF8 \<le> r
      else Letter U r)"

definition IsNumber :: "unicode \<Rightarrow> nat \<Rightarrow> bool" where
  "IsNumber U r =
     (if r \<le> 0xFF
      then (0x30 \<le> r \<and> r \<le> 0x39) \<or> r = 0xB2 \<or> r = 0xB3 \<or> r = 0xB9
           \<or> (0xBC \<le> r \<and> r \<le> 0xBE)
      else Number U r)"

text \<open>
  \<open>unicode.IsSpace\<close> on Latin-1, where Go tests the code points one by one: tab, line feed,
  vertical tab, form feed, carriage return, space, U+0085 and U+00A0.
\<close>

definition IsSpaceLatin1 :: "nat \<Rightarrow> bool" where
  "IsSpaceLatin1 r =
     (r = 0x09 \<or> r = 0x0A \<or> r = 0x0B \<or> r = 0x0C \<or> r = 0x0D \<or> r = 0x20 \<or> r = 0x85
      \<or> r = 0xA0)"

text \<open>\<open>toLower\<close> (segmenter.go, lines 422-432): bytes \<open>A\<close> to \<open>Z\<close> are lowered, bytewise.\<close>

definition toLower :: "Text \<Rightarrow> Text" where
  "toLower t =
     map (\<lambda>c. if 0x41 \<le> (of_char c :: nat) \<and> (of_char c :: nat) \<le> 0x5A
              then char_of ((of_char c :: nat) - 0x41 + 0x61) else c) t"

text \<open>
  \<open>splitTextToWords\<close> (segmenter.go, lines 373-419). \<open>appendWord\<close> is the block that the
  loop body and the code after the loop share: the pending word \<open>text[preWordStart:current]\<close> is
  lowered when its type is \<open>wordAlpha\<close> and appended unless it is the single space.
  \<open>splitLoop\<close> is the \<open>for current < len(text)\<close> loop on its four variables.
\<close>

definition appendWord :: "Text list \<Rightarrow> wordType \<Rightarrow> Text \<Rightarrow> Text list" where
  "appendWord output preWordType w =
     (let word = (if preWordType = wordAlpha then toLower w else w)
      in if word \<noteq> '' '' then output @ [word] else output)"

definition slice :: "'a list \<Rightarrow> nat \<Rightarrow> nat \<Rightarrow> 'a list" where
  "slice xs i j = take (j - i) (drop i xs)"

definition classify :: "unicode \<Rightarrow> nat \<Rightarrow> nat \<Rightarrow> wordType" where
  "classify U r sz =
     (if sz \<le> 2 \<and> IsLetter U r then wordAlpha
      else if sz \<le> 2 \<and> IsNumber U r then wordNumber
      else wordOther)"

function splitLoop ::
  "unicode \<Rightarrow> Text \<Rightarrow> nat \<Rightarrow> wordType \<Rightarrow> nat \<Rightarrow> Text list \<Rightarrow> nat \<times> wordType \<times> nat \<times> Text list"
where
  "splitLoop U t current preWordType preWordStart output =
     (if current < length t then
        (case DecodeRune (drop current t) of (r, sz) \<Rightarrow>
           let curWordType = classify U r sz in
           if curWordType \<noteq> preWordType \<or> curWordType = wordOther then
             splitLoop U t (current + sz) curWordType current
               (if current \<noteq> 0
                then appendWord output preWordType (slice t preWordStart current)
                else output)
           else splitLoop U t (current + sz) preWordType preWordStart output)
      else (current, preWordType, preWordStart, output))"
  by pat_completeness auto
termination
  apply (relation "measure (\<lambda>(U, t, current, _). length t - current)")
    apply simp
  subgoal for U t current preWordType preWordStart out x r sz
    by (cases "drop current t") (auto simp: Let_def split: if_splits)
  subgoal for U t current preWordType preWordStart out x r sz
    by (cases "drop current t") (auto simp: Let_def split: if_splits)
  done

declare splitLoop.simps [simp del]

definition splitTextToWords :: "unicode \<Rightarrow> Text \<Rightarrow> Text list" where
  "splitTextToWords U t =
     (case splitLoop U t 0 wordAlpha 0 [] of
        (current, preWordType, preWordStart, output) \<Rightarrow>
          if current \<noteq> 0 then appendWord output preWordType (slice t preWordStart current)
          else output)"

section \<open>The relax rule\<close>

text \<open>
  \<open>updateJumper\<close> (segmenter.go, lines 348-354): the jumper is overwritten when its distance
  is zero or strictly greater than the new distance, the float32 sum of the base distance and
  the distance of the token.
\<close>

definition updateJumper :: "heap \<Rightarrow> jumper \<Rightarrow> real \<Rightarrow> tokref \<Rightarrow> jumper" where
  "updateJumper h j baseDistance tk =
     (let newDistance = float32 (baseDistance + distance (deref h tk))
      in if minDistance j = 0 \<or> minDistance j > newDistance
         then j\<lparr>minDistance := newDistance, jtoken := Some tk\<rparr>
         else j)"

section \<open>The segmenter\<close>

text \<open>
  A run-time panic of the Go program is a value: an index out of range, or a nil pointer
  dereferenced. A nil-able pointer to a token is a \<open>tokref option\<close>.
\<close>

datatype panic = IndexOutOfRange | NilPointer

text \<open>
  Modelled from the spec: the file dictionary.go (the type \<open>Dictionary\<close>, \<open>addToken\<close> and
  \<open>lookupTokens\<close>) is not among the sources. The dictionary holds references to its tokens in
  insertion order and the two counters. \<open>lookupTokens\<close> follows the spec's words: it gives
  all stored tokens whose atom sequence is a prefix of \<open>atoms\<close> (including equal-length
  matches), ordered by increasing atom-count.
\<close>

record Dictionary =
  tokens :: "nat list"
  totalFrequency :: int
  maxTokenLength :: nat

definition lookupTokens :: "heap \<Rightarrow> Dictionary \<Rightarrow> Text list \<Rightarrow> tokref list" where
  "lookupTokens h d words =
     sort_key (\<lambda>r. length (toktext (deref h r)))
       (map Stored
         (filter (\<lambda>i. take (length (toktext (h ! i))) words = toktext (h ! i)) (tokens d)))"

text \<open>
  \<open>segmentWords\<close> (segmenter.go, lines 268-342). \<open>relaxTokens\<close> is the inner loop over the
  tokens found at \<open>current\<close> (lines 294-299), \<open>relaxFallback\<close> the one-atom fallback (lines
  301-305), \<open>forwardLoop\<close> the loop over \<open>current\<close> (lines 279-306). Writing
  \<open>jumpers[location]\<close> outside the slice panics.
\<close>

fun relaxTokens ::
  "heap \<Rightarrow> bool \<Rightarrow> nat \<Rightarrow> nat \<Rightarrow> real \<Rightarrow> tokref list \<Rightarrow> jumper list \<Rightarrow> panic + jumper list"
where
  "relaxTokens h searchMode n current baseDistance [] jumpers = Inr jumpers"
| "relaxTokens h searchMode n current baseDistance (tk # tks) jumpers =
     (let location = int current + int (length (toktext (deref h tk))) - 1 in
      if \<not> searchMode \<or> current \<noteq> 0 \<or> location \<noteq> int n - 1 then
        (if 0 \<le> location \<and> location < int (length jumpers)
         then relaxTokens h searchMode n current baseDistance tks
                (jumpers[nat location := updateJumper h (jumpers ! nat location) baseDistance tk])
         else Inl IndexOutOfRange)
      else relaxTokens h searchMode n current baseDistance tks jumpers)"

definition relaxFallback ::
  "heap \<Rightarrow> Text list \<Rightarrow> nat \<Rightarrow> real \<Rightarrow> tokref list \<Rightarrow> jumper list \<Rightarrow> jumper list"
where
  "relaxFallback h t current baseDistance toks jumpers =
     (if toks = [] \<or> length (toktext (deref h (hd toks))) > 1
      then jumpers[current := updateJumper h (jumpers ! current) baseDistance
                                (Synthetic (t ! current))]
      else jumpers)"

function forwardLoop ::
  "heap \<Rightarrow> Dictionary \<Rightarrow> bool \<Rightarrow> Text list \<Rightarrow> nat \<Rightarrow> jumper list \<Rightarrow> panic + jumper list"
where
  "forwardLoop h d searchMode t current jumpers =
     (if current < length t then
        (let baseDistance = (if current = 0 then 0 else minDistance (jumpers ! (current - 1)));
             toks = lookupTokens h d
                      (slice t current (min (current + maxTokenLength d) (length t)))
         in case relaxTokens h searchMode (length t) current baseDistance toks jumpers of
              Inl e \<Rightarrow> Inl e
            | Inr js \<Rightarrow>
                forwardLoop h d searchMode t (current + 1)
                  (relaxFallback h t current baseDistance toks js))
      else Inr jumpers)"
  by pat_completeness auto
termination
  by (relation "measure (\<lambda>(h, d, searchMode, t, current, jumpers). length t - current)") auto

declare forwardLoop.simps [simp del]

text \<open>
  The two backward scans (lines 309-323). Neither has a bound of its own: a stored token of
  no atoms would leave \<open>index\<close> unchanged for ever, so both are partial functions, \<open>None\<close>
  standing for a scan that never ends. \<open>countLoop\<close> counts the segments, \<open>fillLoop\<close> writes the
  tokens into \<open>outputSegments\<close> from the back.
\<close>

partial_function (option) countLoop ::
  "heap \<Rightarrow> jumper list \<Rightarrow> int \<Rightarrow> nat \<Rightarrow> (panic + nat) option"
where
  "countLoop h jumpers index numSeg =
     (if index \<ge> 0 then
        (case jtoken (jumpers ! nat index) of
           None \<Rightarrow> Some (Inl NilPointer)
         | Some tk \<Rightarrow>
             countLoop h jumpers (index - int (length (toktext (deref h tk)))) (numSeg + 1))
      else Some (Inr numSeg))"

partial_function (option) fillLoop ::
  "heap \<Rightarrow> jumper list \<Rightarrow> int \<Rightarrow> nat \<Rightarrow> segment list \<Rightarrow> (panic + segment list) option"
where
  "fillLoop h jumpers index numSeg outputSegments =
     (if index \<ge> 0 then
        (case jtoken (jumpers ! nat index) of
           None \<Rightarrow> Some (Inl NilPointer)
         | Some tk \<Rightarrow>
             if numSeg = 0 \<or> numSeg - 1 \<ge> length outputSegments then Some (Inl IndexOutOfRange)
             else fillLoop h jumpers (index - int (length (toktext (deref h tk)))) (numSeg - 1)
                    (outputSegments[numSeg - 1 :=
                       (outputSegments ! (numSeg - 1))\<lparr>token := Some tk\<rparr>]))
      else Some (Inr outputSegments))"

declare countLoop.simps [code] fillLoop.simps [code]

text \<open>
  \<open>textSliceByteLength\<close> (lines 539-544), the byte positions (lines 326-331, \<open>assignSpans\<close>)
  and the stop-word filter (lines 334-339, \<open>filterStop\<close>).
\<close>

definition textSliceByteLength :: "Text list \<Rightarrow> int" where
  "textSliceByteLength t = foldl (\<lambda>len word. len + int (length word)) 0 t"

fun assignSpans :: "heap \<Rightarrow> int \<Rightarrow> segment list \<Rightarrow> panic + segment list" where
  "assignSpans h bytePosition [] = Inr []"
| "assignSpans h bytePosition (s # ss) =
     (case token s of
        None \<Rightarrow> Inl NilPointer
      | Some tk \<Rightarrow>
          (let bytePosition' = bytePosition + textSliceByteLength (toktext (deref h tk)) in
           case assignSpans h bytePosition' ss of
             Inl e \<Rightarrow> Inl e
           | Inr r \<Rightarrow> Inr (s\<lparr>start := bytePosition, endp := bytePosition'\<rparr> # r)))"

fun filterStop :: "heap \<Rightarrow> segment list \<Rightarrow> panic + segment list" where
  "filterStop h [] = Inr []"
| "filterStop h (s # ss) =
     (case token s of
        None \<Rightarrow> Inl NilPointer
      | Some tk \<Rightarrow>
          (case filterStop h ss of
             Inl e \<Rightarrow> Inl e
           | Inr r \<Rightarrow> Inr (if pos (deref h tk) \<noteq> ''__STOP__'' then s # r else r)))"

text \<open>
  \<open>outputSegmentsOf\<close> is \<open>segmentWords\<close> from the allocation of \<open>jumpers\<close> up to the byte
  positions, that is the slice \<open>outputSegments\<close> before the stop-word filter.
\<close>

definition outputSegmentsOf ::
  "heap \<Rightarrow> Dictionary \<Rightarrow> Text list \<Rightarrow> bool \<Rightarrow> (panic + segment list) option"
where
  "outputSegmentsOf h d t searchMode =
     (case forwardLoop h d searchMode t 0
             (replicate (length t) \<lparr>minDistance = 0, jtoken = None\<rparr>) of
        Inl e \<Rightarrow> Some (Inl e)
      | Inr jumpers \<Rightarrow>
          (case countLoop h jumpers (int (length t) - 1) 0 of
             None \<Rightarrow> None
           | Some (Inl e) \<Rightarrow> Some (Inl e)
           | Some (Inr numSeg) \<Rightarrow>
               (case fillLoop h jumpers (int (length t) - 1) numSeg
                       (replicate numSeg \<lparr>start = 0, endp = 0, token = None\<rparr>) of
                  None \<Rightarrow> None
                | Some (Inl e) \<Rightarrow> Some (Inl e)
                | Some (Inr outputSegments) \<Rightarrow> Some (assignSpans h 0 outputSegments))))"

definition segmentWords ::
  "heap \<Rightarrow> Dictionary \<Rightarrow> Text list \<Rightarrow> bool \<Rightarrow> (panic + segment list) option"
where
  "segmentWords h d t searchMode =
     (if searchMode \<and> length t = 1 then Some (Inr [])
      else
        (case outputSegmentsOf h d t searchMode of
           None \<Rightarrow> None
         | Some (Inl e) \<Rightarrow> Some (Inl e)
         | Some (Inr outputSegments) \<Rightarrow> Some (filterStop h outputSegments)))"

text \<open>\<open>internalSegment\<close> (lines 256-266) and \<open>Segment\<close> (lines 231-233).\<close>

definition internalSegment ::
  "unicode \<Rightarrow> heap \<Rightarrow> Dictionary \<Rightarrow> Text \<Rightarrow> bool \<Rightarrow> (panic + segment list) option"
where
  "internalSegment U h d bytes searchMode =
     (if length bytes = 0 then Some (Inr [])
      else segmentWords h d (splitTextToWords U bytes) searchMode)"

definition Segment :: "unicode \<Rightarrow> heap \<Rightarrow> Dictionary \<Rightarrow> Text \<Rightarrow> (panic + segment list) option"
where
  "Segment U h d bytes = internalSegment U h d bytes False"

section \<open>The dictionary loader\<close>

text \<open>
  The Go library functions the loader calls on one line of a dictionary file:
  \<open>strings.Trim\<close> with a one-character cutset, \<open>strings.Split\<close> on a one-character
  separator (an empty string splits into one empty slice), \<open>strings.Join\<close>,
  \<open>strings.Replace\<close> with \<open>n = -1\<close> and a non-empty \<open>old\<close> (all non-overlapping occurrences,
  left to right), the regular expression \<open>^\\d+$\<close> (\<open>matchDigits\<close>: one or more ASCII digits),
  and \<open>strconv.Atoi\<close> (an optional sign, decimal digits, a value that fits 64 bits).
\<close>

definition strings_Trim :: "string \<Rightarrow> char \<Rightarrow> string" where
  "strings_Trim s c = rev (dropWhile (\<lambda>x. x = c) (rev (dropWhile (\<lambda>x. x = c) s)))"

fun strings_Split :: "string \<Rightarrow> char \<Rightarrow> string list" where
  "strings_Split [] sep = [[]]"
| "strings_Split (c # cs) sep =
     (if c = sep then [] # strings_Split cs sep
      else (case strings_Split cs sep of
              w # ws \<Rightarrow> (c # w) # ws
            | [] \<Rightarrow> [[c]]))"

fun strings_Join :: "string list \<Rightarrow> string \<Rightarrow> string" where
  "strings_Join [] sep = []"
| "strings_Join [x] sep = x"
| "strings_Join (x # y # ys) sep = x @ sep @ strings_Join (y # ys) sep"

function strings_Replace :: "string \<Rightarrow> string \<Rightarrow> string \<Rightarrow> string" where
  "strings_Replace old new [] = []"
| "strings_Replace old new (c # cs) =
     (if old \<noteq> [] \<and> take (length old) (c # cs) = old
      then new @ strings_Replace old new (drop (length old) (c # cs))
      else c # strings_Replace old new cs)"
  by pat_completeness auto

termination
  by (relation "measure (\<lambda>(old, new, s). length s)") auto

definition isDigit :: "char \<Rightarrow> bool" where
  "isDigit c = (0x30 \<le> (of_char c :: nat) \<and> (of_char c :: nat) \<le> 0x39)"

definition matchDigits :: "string \<Rightarrow> bool" where
  "matchDigits s = (s \<noteq> [] \<and> list_all isDigit s)"

definition digitsValue :: "string \<Rightarrow> int" where
  "digitsValue ds = foldl (\<lambda>n c. 10 * n + (int (of_char c) - 0x30)) 0 ds"

definition strconv_Atoi :: "string \<Rightarrow> int option" where
  "strconv_Atoi s =
     (let neg = (s \<noteq> [] \<and> hd s = CHR ''-'');
          ds = (if s \<noteq> [] \<and> (hd s = CHR ''-'' \<or> hd s = CHR ''+'') then tl s else s)
      in if \<not> matchDigits ds then None
         else let n = (if neg then - digitsValue ds else digitsValue ds)
              in if n < - (2 ^ 63) \<or> 2 ^ 63 - 1 < n then None else Some n)"

text \<open>
  \<open>LoadDictionary\<close>, one piece of a line (segmenter.go, lines 74-123). An iteration of the
  loop over the pieces ends with \<open>break\<close>, with \<open>continue\<close>, or by appending a token to
  \<open>synonyms\<close>. \<open>parseEntry\<close> is the part both formats share (lines 101-122); \<open>parsePieces\<close>
  is the loop, \<open>parseLine\<close> the split of the trimmed line at \<open>|\<close>.
\<close>

definition minTokenFrequency :: int where
  "minTokenFrequency = 2"

datatype 'a iteration = Break | Continue | Append 'a

definition parseEntry :: "unicode \<Rightarrow> string \<Rightarrow> string \<Rightarrow> string \<Rightarrow> Token iteration" where
  "parseEntry U txt freqText p =
     (if txt = [] then Break
      else (case strconv_Atoi freqText of
              None \<Rightarrow> Continue
            | Some freq \<Rightarrow>
                if freq < minTokenFrequency then Continue
                else Append \<lparr>toktext = splitTextToWords U txt, frequency = freq, distance = 0,
                              pos = p, segments = [], synonyms = []\<rparr>))"

definition parsePiece :: "unicode \<Rightarrow> string \<Rightarrow> Token iteration" where
  "parsePiece U piece =
     (let slices = strings_Split (strings_Trim piece CHR '' '') CHR '' '';
          l = length slices
      in if matchDigits (slices ! (l - 1)) then
           (if l < 2 then Break
            else parseEntry U (strings_Join (take (l - 1) slices) '' '') (slices ! (l - 1)) '''')
         else
           (if l < 3 then Break
            else parseEntry U
                   (strings_Replace ''__VERTICAL_BAR__'' ''|''
                      (strings_Join (take (l - 2) slices) '' ''))
                   (slices ! (l - 2)) (slices ! (l - 1))))"

fun parsePieces :: "unicode \<Rightarrow> string list \<Rightarrow> Token list" where
  "parsePieces U [] = []"
| "parsePieces U (piece # pieces) =
     (case parsePiece U piece of
        Break \<Rightarrow> []
      | Continue \<Rightarrow> parsePieces U pieces
      | Append tk \<Rightarrow> tk # parsePieces U pieces)"

definition parseLine :: "unicode \<Rightarrow> string \<Rightarrow> Token list" where
  "parseLine U line = parsePieces U (strings_Split (strings_Trim line CHR '' '') CHR ''|'')"

text \<open>
  Modelled from the spec: \<open>addToken\<close> of dictionary.go, which is not among the sources. It
  inserts the token keyed by its concatenated atom bytes; if a token with that key already
  exists the call is a no-op; on real insertion \<open>totalFrequency\<close> grows by the token's
  frequency and \<open>maxTokenLength\<close> becomes the maximum with the token's atom count.
\<close>

definition addToken :: "heap \<Rightarrow> Dictionary \<Rightarrow> nat \<Rightarrow> Dictionary" where
  "addToken h d r =
     (if concat (toktext (h ! r)) \<in> set (map (\<lambda>i. concat (toktext (h ! i))) (tokens d)) then d
      else d\<lparr>tokens := tokens d @ [r],
             totalFrequency := totalFrequency d + frequency (h ! r),
             maxTokenLength := max (maxTokenLength d) (length (toktext (h ! r)))\<rparr>)"

text \<open>
  \<open>LoadDictionary\<close>, lines 49-139, on the lines of the dictionary files in the order they
  are read (a line without its final newline). \<open>loadLine\<close> allocates the tokens of one line,
  gives each the others as synonyms (lines 125-127) and adds them to the dictionary (line
  131). \<open>NewDictionary\<close> is the empty dictionary. \<open>LoadDictionary\<close> is the whole function,
  file access apart.
\<close>

definition NewDictionary :: Dictionary where
  "NewDictionary = \<lparr>tokens = [], totalFrequency = 0, maxTokenLength = 0\<rparr>"

definition loadLine :: "unicode \<Rightarrow> heap \<times> Dictionary \<Rightarrow> string \<Rightarrow> heap \<times> Dictionary" where
  "loadLine U st line =
     (case st of (h, d) \<Rightarrow>
        (let toks = parseLine U line;
             refs = [length h ..< length h + length toks];
             h' = h @ map (\<lambda>i. (toks ! i)\<lparr>synonyms := synonyms (toks ! i)
                                      @ map Stored (take i refs)
                                      @ map Stored (drop (i + 1) refs)\<rparr>)
                        [0 ..< length toks]
         in (h', foldl (addToken h') d refs)))"

text \<open>
  The distance assignment (lines 141-146): \<open>float32(math.Log2(float64(n)))\<close> is the rounded
  logarithm of the integer \<open>n\<close> (an integer below \<open>2 ^ 53\<close> is a \<open>float64\<close>), and the difference of
  the two float32 values is rounded again.
\<close>

definition assignDistances :: "heap \<Rightarrow> Dictionary \<Rightarrow> heap" where
  "assignDistances h d =
     (let logTotalFrequency = float32 (log 2 (real_of_int (totalFrequency d)))
      in foldl (\<lambda>h' i. h'[i := (h' ! i)\<lparr>distance :=
                   float32 (logTotalFrequency
                            - float32 (log 2 (real_of_int (frequency (h' ! i)))))\<rparr>])
           h (tokens d))"

text \<open>
  The sub-segmentation and the synonym products of one token (lines 149-218). \<open>seedToken\<close>
  is the initial element of \<open>synonyms\<close> (lines 159-165), \<open>productToken\<close> the token literal
  of lines 177-182 and 188-193, \<open>cartesianOf\<close> the loop over \<open>synonyms\<close> for one sub-segment
  (lines 170-195), \<open>expandSynonyms\<close> the loop over the sub-segments (lines 167-198). The
  product tokens are allocated at the end of the store when they become \<open>token.synonyms\<close>
  (line 201); \<open>insertSynonyms\<close> is the loop of lines 203-217 (\<open>done\<close> and \<open>todo\<close> are
  \<open>synonyms[:i]\<close> and \<open>synonyms[i+1:]\<close>), \<open>expandToken\<close> the body of the loop of line 149 for
  the token of reference \<open>i\<close>, \<open>expandAll\<close> that loop over the tokens the dictionary held when
  it started, and \<open>deriveAll\<close> lines 141-219.
\<close>

definition seedToken :: "Token \<Rightarrow> Token" where
  "seedToken tk =
     \<lparr>toktext = [], frequency = frequency tk, distance = distance tk, pos = pos tk,
      segments = [], synonyms = []\<rparr>"

definition productToken :: "Token \<Rightarrow> Text list \<Rightarrow> Token" where
  "productToken a w =
     \<lparr>toktext = toktext a @ w, frequency = frequency a, distance = distance a, pos = pos a,
      segments = [], synonyms = []\<rparr>"

definition cartesianOf :: "heap \<Rightarrow> tokref \<Rightarrow> Token list \<Rightarrow> Token list" where
  "cartesianOf h tk syns =
     concat (map (\<lambda>a. if length (synonyms (deref h tk)) > 0
                         then map (\<lambda>b. productToken a (toktext (deref h b)))
                                (synonyms (deref h tk))
                         else [productToken a (toktext (deref h tk))]) syns)"

fun expandSynonyms ::
  "heap \<Rightarrow> segment list \<Rightarrow> Token list \<Rightarrow> bool \<Rightarrow> panic + Token list \<times> bool"
where
  "expandSynonyms h [] syns hasSynonyms = Inr (syns, hasSynonyms)"
| "expandSynonyms h (s # ss) syns hasSynonyms =
     (case token s of
        None \<Rightarrow> if syns = [] then expandSynonyms h ss [] hasSynonyms else Inl NilPointer
      | Some tk \<Rightarrow>
          expandSynonyms h ss (cartesianOf h tk syns)
            (hasSynonyms \<or> (syns \<noteq> [] \<and> length (synonyms (deref h tk)) > 0)))"

fun insertSynonyms ::
  "nat \<Rightarrow> nat list \<Rightarrow> nat list \<Rightarrow> heap \<times> Dictionary
   \<Rightarrow> (panic + heap \<times> Dictionary) option"
where
  "insertSynonyms src done [] (h, d) = Some (Inr (h, d))"
| "insertSynonyms src done (r # todo) (h, d) =
     (case segmentWords h d (toktext (h ! r)) True of
        None \<Rightarrow> None
      | Some (Inl e) \<Rightarrow> Some (Inl e)
      | Some (Inr segs) \<Rightarrow>
          (let h' = h[r := (h ! r)\<lparr>segments := segments (h ! r) @ segs,
                                   synonyms := synonyms (h ! r) @ [Stored src]
                                                @ map Stored done @ map Stored todo\<rparr>]
           in insertSynonyms src (done @ [r]) todo (h', addToken h' d r)))"

definition expandToken ::
  "nat \<Rightarrow> heap \<times> Dictionary \<Rightarrow> (panic + heap \<times> Dictionary) option"
where
  "expandToken i st =
     (case st of (h, d) \<Rightarrow>
        (case segmentWords h d (toktext (h ! i)) True of
           None \<Rightarrow> None
         | Some (Inl e) \<Rightarrow> Some (Inl e)
         | Some (Inr segs) \<Rightarrow>
             (let h1 = h[i := (h ! i)\<lparr>segments := segments (h ! i) @ segs\<rparr>]
              in case expandSynonyms h1 (segments (h1 ! i)) [seedToken (h1 ! i)] False of
                   Inl e \<Rightarrow> Some (Inl e)
                 | Inr (syns, hasSynonyms) \<Rightarrow>
                     if hasSynonyms then
                       (let refs = [length h1 ..< length h1 + length syns];
                            h2 = (h1 @ syns)[i := (h1 ! i)\<lparr>synonyms := map Stored refs\<rparr>]
                        in insertSynonyms i [] refs (h2, d))
                     else Some (Inr (h1, d)))))"

fun expandAll ::
  "nat list \<Rightarrow> heap \<times> Dictionary \<Rightarrow> (panic + heap \<times> Dictionary) option"
where
  "expandAll [] st = Some (Inr st)"
| "expandAll (i # rest) st =
     (case expandToken i st of
        None \<Rightarrow> None
      | Some (Inl e) \<Rightarrow> Some (Inl e)
      | Some (Inr st') \<Rightarrow> expandAll rest st')"

definition deriveAll :: "heap \<Rightarrow> Dictionary \<Rightarrow> (panic + heap \<times> Dictionary) option" where
  "deriveAll h d = expandAll (tokens d) (assignDistances h d, d)"

definition LoadDictionary ::
  "unicode \<Rightarrow> string list \<Rightarrow> (panic + heap \<times> Dictionary) option"
where
  "LoadDictionary U lines =
     (case foldl (loadLine U) ([], NewDictionary) lines of (h, d) \<Rightarrow> deriveAll h d)"

section \<open>The spread of segments\<close>

text \<open>
  \<open>SegmentsSpread\<close> (lines 494-515) recurses through the tokens' sub-segments with no bound of
  its own, so the model counts the depth of the recursion: \<open>None\<close> is a recursion deeper
  than \<open>depth\<close>. \<open>FullSegment\<close> is lines 242-249.
\<close>

fun SegmentsSpread :: "nat \<Rightarrow> heap \<Rightarrow> segment list \<Rightarrow> (panic + segment list) option" where
  "SegmentsSpread depth h [] = Some (Inr [])"
| "SegmentsSpread 0 h (s # segs) = None"
| "SegmentsSpread (Suc depth) h (s # segs) =
     (case token s of
        None \<Rightarrow> Some (Inl NilPointer)
      | Some tk \<Rightarrow>
          (case SegmentsSpread depth h (segments (deref h tk)) of
             None \<Rightarrow> None
           | Some (Inl e) \<Rightarrow> Some (Inl e)
           | Some (Inr sub) \<Rightarrow>
               (case SegmentsSpread (Suc depth) h segs of
                  None \<Rightarrow> None
                | Some (Inl e) \<Rightarrow> Some (Inl e)
                | Some (Inr output) \<Rightarrow>
                    Some (Inr (sub
                               @ map (\<lambda>t. \<lparr>start = start s, endp = endp s, token = Some t\<rparr>)
                                   (synonyms (deref h tk))
                               @ [s] @ output)))))"

definition FullSegment ::
  "nat \<Rightarrow> unicode \<Rightarrow> heap \<Rightarrow> Dictionary \<Rightarrow> Text \<Rightarrow> (panic + segment list) option"
where
  "FullSegment depth U h d bytes =
     (case internalSegment U h d bytes False of
        None \<Rightarrow> None
      | Some (Inl e) \<Rightarrow> Some (Inl e)
      | Some (Inr segs) \<Rightarrow> SegmentsSpread depth h segs)"

section \<open>Concrete inputs\<close>

text \<open>
  Range tables that are empty above Latin-1, for concrete inputs whose scalars of at most two
  bytes all lie in Latin-1 (the tables are then never consulted).
\<close>

definition latin1Tables :: unicode where
  "latin1Tables = \<lparr>Letter = (\<lambda>r. False), Number = (\<lambda>r. False)\<rparr>"

text \<open>A store of two tokens of the same distance.\<close>

definition tieHeap :: heap where
  "tieHeap =
     [\<lparr>toktext = [''a''], frequency = 4, distance = 3, pos = ''p'', segments = [], synonyms = []\<rparr>,
      \<lparr>toktext = [''b'', ''a''], frequency = 4, distance = 3, pos = ''q'', segments = [],
        synonyms = []\<rparr>]"

text \<open>
  The dictionary file of the one line \<open>a b 5\<close>: the store and the dictionary when the line
  has been read (\<open>zeroParsed\<close>, \<open>zeroDict\<close>) and when \<open>LoadDictionary\<close> returns (\<open>zeroHeap\<close>,
  \<open>zeroDict\<close>). The distance of the one token is \<open>log2 5 - log2 5 = 0\<close>.
\<close>

definition zeroParsed :: heap where
  "zeroParsed = [\<lparr>toktext = [''a'', ''b''], frequency = 5, distance = 0, pos = [],
                  segments = [], synonyms = []\<rparr>]"

definition zeroHeap :: heap where
  "zeroHeap = [\<lparr>toktext = [''a'', ''b''], frequency = 5, distance = 0, pos = [],
                segments = [\<lparr>start = 0, endp = 1, token = Some (Synthetic ''a'')\<rparr>,
                            \<lparr>start = 1, endp = 2, token = Some (Synthetic ''b'')\<rparr>],
                synonyms = []\<rparr>]"

definition zeroDict :: Dictionary where
  "zeroDict = \<lparr>tokens = [0], totalFrequency = 5, maxTokenLength = 2\<rparr>"

text \<open>
  The dictionary file of the two lines \<open>hello 4 p2\<close> and \<open>hello world 4 p1\<close>, when the lines
  have been read (\<open>demoParsed\<close>) and when \<open>LoadDictionary\<close> returns (\<open>demoHeap\<close>): both
  distances are \<open>log2 8 - log2 4 = 1\<close>.
\<close>

definition demoParsed :: heap where
  "demoParsed =
     [\<lparr>toktext = [''hello''], frequency = 4, distance = 0, pos = ''p2'', segments = [],
        synonyms = []\<rparr>,
      \<lparr>toktext = [''hello'', ''world''], frequency = 4, distance = 0, pos = ''p1'',
        segments = [], synonyms = []\<rparr>]"

definition demoHeap :: heap where
  "demoHeap =
     [\<lparr>toktext = [''hello''], frequency = 4, distance = 1, pos = ''p2'', segments = [],
        synonyms = []\<rparr>,
      \<lparr>toktext = [''hello'', ''world''], frequency = 4, distance = 1, pos = ''p1'',
        segments = [\<lparr>start = 0, endp = 5, token = Some (Stored 0)\<rparr>,
                    \<lparr>start = 5, endp = 10, token = Some (Synthetic ''world'')\<rparr>],
        synonyms = []\<rparr>]"

definition demoDict :: Dictionary where
  "demoDict = \<lparr>tokens = [0, 1], totalFrequency = 8, maxTokenLength = 2\<rparr>"

text \<open>
  The dictionary file of the two lines \<open>x 4 p0|y 4 p1\<close> and \<open>x z 8 p2\<close>, when the lines have
  been read (\<open>loadedHeap\<close>, \<open>synDict\<close>) and when \<open>LoadDictionary\<close> returns (\<open>expandedHeap\<close>,
  \<open>expandedDict\<close>).
\<close>

definition loadedHeap :: heap where
  "loadedHeap =
     [\<lparr>toktext = [''x''], frequency = 4, distance = 0, pos = ''p0'', segments = [],
        synonyms = [Stored 1]\<rparr>,
      \<lparr>toktext = [''y''], frequency = 4, distance = 0, pos = ''p1'', segments = [],
        synonyms = [Stored 0]\<rparr>,
      \<lparr>toktext = [''x'', ''z''], frequency = 8, distance = 0, pos = ''p2'', segments = [],
        synonyms = []\<rparr>]"

definition expandedHeap :: heap where
  "expandedHeap =
     [\<lparr>toktext = [''x''], frequency = 4, distance = 2, pos = ''p0'', segments = [],
        synonyms = [Stored 1]\<rparr>,
      \<lparr>toktext = [''y''], frequency = 4, distance = 2, pos = ''p1'', segments = [],
        synonyms = [Stored 0]\<rparr>,
      \<lparr>toktext = [''x'', ''z''], frequency = 8, distance = 1, pos = ''p2'',
        segments = [\<lparr>start = 0, endp = 1, token = Some (Stored 0)\<rparr>,
                    \<lparr>start = 1, endp = 2, token = Some (Synthetic ''z'')\<rparr>],
        synonyms = [Stored 3]\<rparr>,
      \<lparr>toktext = [''y'', ''z''], frequency = 8, distance = 1, pos = ''p2'',
        segments = [\<lparr>start = 0, endp = 1, token = Some (Stored 1)\<rparr>,
                    \<lparr>start = 1, endp = 2, token = Some (Synthetic ''z'')\<rparr>],
        synonyms = [Stored 2]\<rparr>]"

definition expandedDict :: Dictionary where
  "expandedDict = \<lparr>tokens = [0, 1, 2, 3], totalFrequency = 24, maxTokenLength = 2\<rparr>"

definition synDict :: Dictionary where
  "synDict = \<lparr>tokens = [0, 1, 2], totalFrequency = 16, maxTokenLength = 2\<rparr>"

section \<open>Auxiliary predicates of the proofs\<close>

text \<open>
  A byte is \<open>plain\<close> when it is neither the space nor an upper-case ASCII letter, \<open>hb\<close> when its
  high bit is set. \<open>pendingOk\<close> is what the loop of \<open>splitTextToWords\<close> keeps true of the
  pending word of each type, \<open>splitInv\<close> the loop invariant.
\<close>

definition plain :: "char \<Rightarrow> bool" where
  "plain c = (c \<noteq> CHR '' '' \<and> \<not> (0x41 \<le> (of_char c :: nat) \<and> (of_char c :: nat) \<le> 0x5A))"

definition pendingOk :: "wordType \<Rightarrow> Text \<Rightarrow> bool" where
  "pendingOk ty w =
     (case ty of
        wordAlpha \<Rightarrow> CHR '' '' \<notin> set w
      | wordNumber \<Rightarrow> list_all plain w
      | wordOther \<Rightarrow> w = '' '' \<or> list_all plain w)"

definition hb :: "char \<Rightarrow> bool" where
  "hb c = (0x80 \<le> (of_char c :: nat))"

definition splitInv :: "Text \<Rightarrow> nat \<Rightarrow> wordType \<Rightarrow> nat \<Rightarrow> Text list \<Rightarrow> bool" where
  "splitInv t current ty ws out =
     (ws \<le> current \<and> current \<le> length t
      \<and> concat out = toLower (filter (\<lambda>c. c \<noteq> CHR '' '') (take ws t))
      \<and> pendingOk ty (slice t ws current))"

text \<open>
  For the segmenter. \<open>dictOk\<close>: every reference of the dictionary points into the store, at a
  token of at least one atom (the data model's "non-empty ordered sequence of atoms").
  \<open>cand\<close>: a token found at \<open>current\<close> is not empty and equals the atoms it covers. \<open>tokAt\<close>:
  what the forward loop keeps true of the token stored at position \<open>i\<close>; \<open>jok\<close> and
  \<open>jumpersOk\<close>: the loop invariant. \<open>backPath\<close>: the tokens the backward scans visit, left to
  right. \<open>spanSum\<close>: the sum of \<open>end - start\<close>; \<open>isStop\<close>: the stop-word test of the filter.
\<close>

definition dictOk :: "heap \<Rightarrow> Dictionary \<Rightarrow> bool" where
  "dictOk h d = list_all (\<lambda>i. i < length h \<and> toktext (h ! i) \<noteq> []) (tokens d)"

definition cand :: "heap \<Rightarrow> Text list \<Rightarrow> nat \<Rightarrow> tokref \<Rightarrow> bool" where
  "cand h t current tk =
     (let w = toktext (deref h tk)
      in w \<noteq> [] \<and> current + length w \<le> length t \<and> w = slice t current (current + length w))"

definition tokAt :: "heap \<Rightarrow> Text list \<Rightarrow> bool \<Rightarrow> nat \<Rightarrow> tokref \<Rightarrow> bool" where
  "tokAt h t searchMode i tk =
     (let w = toktext (deref h tk)
      in 1 \<le> length w \<and> length w \<le> i + 1 \<and> w = slice t (i + 1 - length w) (i + 1)
         \<and> (searchMode \<and> i + 1 = length t \<longrightarrow> length w \<le> i))"

definition jok :: "heap \<Rightarrow> Text list \<Rightarrow> bool \<Rightarrow> nat \<Rightarrow> jumper \<Rightarrow> bool" where
  "jok h t searchMode i j =
     (case jtoken j of None \<Rightarrow> minDistance j = 0 | Some tk \<Rightarrow> tokAt h t searchMode i tk)"

definition jumpersOk :: "heap \<Rightarrow> Text list \<Rightarrow> bool \<Rightarrow> nat \<Rightarrow> jumper list \<Rightarrow> bool" where
  "jumpersOk h t searchMode current js =
     (length js = length t \<and> (\<forall>i < length t. jok h t searchMode i (js ! i))
      \<and> (\<forall>i < length t. i < current \<longrightarrow> jtoken (js ! i) \<noteq> None))"

function backPath :: "heap \<Rightarrow> jumper list \<Rightarrow> int \<Rightarrow> tokref list" where
  "backPath h js index =
     (if index < 0 then []
      else (case jtoken (js ! nat index) of
              None \<Rightarrow> []
            | Some tk \<Rightarrow>
                if toktext (deref h tk) = [] then []
                else backPath h js (index - int (length (toktext (deref h tk)))) @ [tk]))"
  by pat_completeness auto

termination
  by (relation "measure (\<lambda>(h, js, index). nat (index + 1))") (auto simp: Suc_le_eq)

declare backPath.simps [simp del]

definition filled :: "heap \<Rightarrow> jumper list \<Rightarrow> bool" where
  "filled h js =
     (\<forall>i < length js. \<exists>tk. jtoken (js ! i) = Some tk \<and> toktext (deref h tk) \<noteq> [])"

definition spanSum :: "segment list \<Rightarrow> int" where
  "spanSum segs = sum_list (map (\<lambda>s. endp s - start s) segs)"

definition isStop :: "heap \<Rightarrow> segment \<Rightarrow> bool" where
  "isStop h s = (case token s of None \<Rightarrow> False | Some tk \<Rightarrow> pos (deref h tk) = ''__STOP__'')"

text \<open>\<open>sameFields\<close>: two tokens agree on frequency, distance and part of speech.\<close>

definition sameFields :: "Token \<Rightarrow> Token \<Rightarrow> bool" where
  "sameFields a b = (frequency a = frequency b \<and> distance a = distance b \<and> pos a = pos b)"

text \<open>
  For the forward loop as a fold. \<open>notSkipped\<close>: the test of line 296, which lets a token
  found at \<open>current\<close> be relaxed (in search mode the token that would span the whole text is
  left out). \<open>candidates\<close>: the tokens relaxed in the iteration \<open>current\<close>, in the order of the
  code: the tokens found, without those the test leaves out, then the one-atom fallback token
  when line 302 adds it. \<open>relax1\<close>: one call of \<open>updateJumper\<close>, on the jumper of the position
  where the token ends.
\<close>

definition notSkipped :: "heap \<Rightarrow> bool \<Rightarrow> nat \<Rightarrow> nat \<Rightarrow> tokref \<Rightarrow> bool" where
  "notSkipped h searchMode n current tk =
     (\<not> searchMode \<or> current \<noteq> 0
      \<or> int current + int (length (toktext (deref h tk))) - 1 \<noteq> int n - 1)"

definition candidates :: "heap \<Rightarrow> Dictionary \<Rightarrow> bool \<Rightarrow> Text list \<Rightarrow> nat \<Rightarrow> tokref list" where
  "candidates h d searchMode t current =
     (let toks = lookupTokens h d
                   (slice t current (min (current + maxTokenLength d) (length t)))
      in filter (notSkipped h searchMode (length t) current) toks
         @ (if toks = [] \<or> length (toktext (deref h (hd toks))) > 1
            then [Synthetic (t ! current)] else []))"

definition relax1 :: "heap \<Rightarrow> nat \<Rightarrow> real \<Rightarrow> jumper list \<Rightarrow> tokref \<Rightarrow> jumper list" where
  "relax1 h current b js tk =
     js[current + length (toktext (deref h tk)) - 1 :=
          updateJumper h (js ! (current + length (toktext (deref h tk)) - 1)) b tk]"

text \<open>
  For the store that \<open>LoadDictionary\<close> leaves. \<open>validRef n r\<close>: the reference \<open>r\<close> points into
  a store of \<open>n\<close> tokens (a fallback token is carried by value). \<open>tokenOk\<close>: a stored token has
  at least one atom, and its synonyms and the tokens of its sub-segments are valid
  references. \<open>heapInv\<close>: every token of the store is so, the dictionary refers into the store,
  and no reference occurs twice in it. \<open>subSpanOk h t s\<close>: the span of the segment \<open>s\<close> lies
  within the bytes of the atoms \<open>t\<close>, and the bytes of \<open>t\<close> from \<open>start\<close> to \<open>end\<close> are the bytes
  of the token of \<open>s\<close>: \<open>start\<close> and \<open>end\<close> are byte offsets into \<open>t\<close>. \<open>earlier h0 d0 h d\<close>: the
  store \<open>h0\<close> and dictionary \<open>d0\<close> are an earlier state of \<open>h\<close> and \<open>d\<close>: the store has only
  grown, the atoms of its tokens have not changed, and the dictionary has lost no token.
  \<open>stored h d k\<close>: the sub-segments stored in token \<open>k\<close> are the value of
  \<open>segmentWords(token.text, true)\<close> on an earlier state. \<open>dictToken\<close>: a token reference that
  \<open>segmentWords\<close> can return, a token of the dictionary or a fallback token.
\<close>

fun validRef :: "nat \<Rightarrow> tokref \<Rightarrow> bool" where
  "validRef n (Stored k) = (k < n)"
| "validRef n (Synthetic a) = True"

definition tokenOk :: "nat \<Rightarrow> Token \<Rightarrow> bool" where
  "tokenOk n tk =
     (toktext tk \<noteq> [] \<and> list_all (validRef n) (synonyms tk)
      \<and> list_all (\<lambda>s. case token s of None \<Rightarrow> False | Some r \<Rightarrow> validRef n r) (segments tk))"

definition heapInv :: "heap \<Rightarrow> Dictionary \<Rightarrow> bool" where
  "heapInv h d =
     (list_all (tokenOk (length h)) h \<and> list_all (\<lambda>i. i < length h) (tokens d)
      \<and> distinct (tokens d))"

definition subSpanOk :: "heap \<Rightarrow> Text list \<Rightarrow> segment \<Rightarrow> bool" where
  "subSpanOk h t s =
     (case token s of
        None \<Rightarrow> False
      | Some tk \<Rightarrow>
          0 \<le> start s \<and> start s \<le> endp s \<and> endp s \<le> textSliceByteLength t
          \<and> slice (concat t) (nat (start s)) (nat (endp s)) = concat (toktext (deref h tk)))"

definition earlier :: "heap \<Rightarrow> Dictionary \<Rightarrow> heap \<Rightarrow> Dictionary \<Rightarrow> bool" where
  "earlier h0 d0 h d =
     (length h0 \<le> length h
      \<and> list_all (\<lambda>k. toktext (h0 ! k) = toktext (h ! k)) [0 ..< length h0]
      \<and> list_all (\<lambda>i. i \<in> set (tokens d)) (tokens d0))"

definition stored :: "heap \<Rightarrow> Dictionary \<Rightarrow> nat \<Rightarrow> bool" where
  "stored h d k =
     (\<exists>h0 d0. heapInv h0 d0 \<and> earlier h0 d0 h d
        \<and> segmentWords h0 d0 (toktext (h ! k)) True = Some (Inr (segments (h ! k))))"

definition dictToken :: "Dictionary \<Rightarrow> tokref \<Rightarrow> bool" where
  "dictToken d tk = (case tk of Stored i \<Rightarrow> i \<in> set (tokens d) | Synthetic a \<Rightarrow> True)"

section \<open>The atom tokenizer: proofs\<close>

lemma splitLoop_step:
  "current < length t \<Longrightarrow> splitLoop U t current preWordType preWordStart output =
        (case DecodeRune (drop current t) of (r, sz) \<Rightarrow>
           let curWordType = classify U r sz in
           if curWordType \<noteq> preWordType \<or> curWordType = wordOther then
             splitLoop U t (current + sz) curWordType current
               (if current \<noteq> 0
                then appendWord output preWordType (slice t preWordStart current)
                else output)
           else splitLoop U t (current + sz) preWordType preWordStart output)"
  by (subst splitLoop.simps) simp

lemma splitLoop_done:
  "\<not> current < length t \<Longrightarrow> splitLoop U t current preWordType preWordStart output =
     (current, preWordType, preWordStart, output)"
  by (subst splitLoop.simps) simp

lemmas splitEval = splitTextToWords_def splitLoop_step splitLoop_done classify_def IsLetter_def
  IsNumber_def appendWord_def slice_def toLower_def Let_def char_of_def bit_Suc_0_iff

lemma space_code: "(of_char c :: nat) = 32 \<longleftrightarrow> c = CHR '' ''"
proof
  assume "(of_char c :: nat) = 32"
  then have "(of_char c :: nat) = of_char CHR '' ''" by simp
  then show "c = CHR '' ''" by (simp only: of_char_eq_iff)
qed simp

lemma high_plain: "0x80 \<le> (of_char c :: nat) \<Longrightarrow> plain c"
  by (auto simp: plain_def)

lemma toLower_append: "toLower (a @ b) = toLower a @ toLower b"
  by (simp add: toLower_def)

lemma toLower_plain: "list_all plain w \<Longrightarrow> toLower w = w"
  by (induction w) (auto simp: toLower_def plain_def)

lemma plain_nospace: "list_all plain w \<Longrightarrow> CHR '' '' \<notin> set w"
  by (induction w) (auto simp: plain_def)

lemma toLower_nospace: "CHR '' '' \<notin> set w \<Longrightarrow> CHR '' '' \<notin> set (toLower w)"
proof (induction w)
  case Nil
  then show ?case by (simp add: toLower_def)
next
  case (Cons c w)
  have "char_of ((of_char c :: nat) - 0x41 + 0x61) \<noteq> CHR '' ''"
    if "0x41 \<le> (of_char c :: nat)" "(of_char c :: nat) \<le> 0x5A"
  proof
    assume "char_of ((of_char c :: nat) - 0x41 + 0x61) = CHR '' ''"
    then have "(of_char (char_of ((of_char c :: nat) - 0x41 + 0x61)) :: nat) = 32" by simp
    then have m: "((of_char c :: nat) - 0x41 + 0x61) mod 256 = 32" by (simp add: of_char_of)
    from that have "(of_char c :: nat) - 0x41 + 0x61 < 256" by linarith
    with m have "(of_char c :: nat) - 0x41 + 0x61 = 32" by simp
    with that show False by linarith
  qed
  with Cons show ?case by (auto simp: toLower_def)
qed

lemma filter_nospace: "CHR '' '' \<notin> set w \<Longrightarrow> filter (\<lambda>c. c \<noteq> CHR '' '') w = w"
  by (induction w) auto

lemma appendWord_concat:
  assumes "pendingOk ty w"
  shows "concat (appendWord out ty w) = concat out @ toLower (filter (\<lambda>c. c \<noteq> CHR '' '') w)"
proof (cases ty)
  case wordAlpha
  with assms have ns: "CHR '' '' \<notin> set w" by (simp add: pendingOk_def)
  then have "toLower w \<noteq> '' ''" using toLower_nospace [OF ns] by auto
  with wordAlpha ns show ?thesis by (simp add: appendWord_def filter_nospace)
next
  case wordNumber
  with assms have p: "list_all plain w" by (simp add: pendingOk_def)
  then have "w \<noteq> '' ''" using plain_nospace [OF p] by auto
  with wordNumber p show ?thesis
    by (simp add: appendWord_def filter_nospace plain_nospace toLower_plain)
next
  case wordOther
  with assms consider "w = '' ''" | "list_all plain w" by (auto simp: pendingOk_def)
  then show ?thesis
  proof cases
    case 1
    with wordOther show ?thesis by (simp add: appendWord_def toLower_def)
  next
    case 2
    then have "w \<noteq> '' ''" using plain_nospace [OF 2] by auto
    with wordOther 2 show ?thesis
      by (simp add: appendWord_def filter_nospace plain_nospace toLower_plain)
  qed
qed

lemma DecodeRune_cases:
  assumes "DecodeRune (c # p) = (r, sz)"
  shows "(sz = 1 \<and> \<not> hb c \<and> r = of_char c)
       \<or> (sz = 1 \<and> hb c)
       \<or> (sz = 2 \<and> 1 \<le> length p \<and> hb c \<and> hb (p ! 0))
       \<or> (sz = 3 \<and> 2 \<le> length p \<and> hb c \<and> hb (p ! 0) \<and> hb (p ! 1))
       \<or> (sz = 4 \<and> 3 \<le> length p \<and> hb c \<and> hb (p ! 0) \<and> hb (p ! 1) \<and> hb (p ! 2))"
  using assms
  by (simp add: Let_def hb_def Suc_le_eq split: if_splits)

lemma hb_plain: "hb c \<Longrightarrow> plain c"
  by (simp add: hb_def high_plain)

lemma take_high2:
  "1 \<le> length p \<Longrightarrow> hb c \<Longrightarrow> hb (p ! 0) \<Longrightarrow> list_all plain (take 2 (c # p))"
  by (cases p) (simp_all add: hb_plain numeral_2_eq_2)

lemma take_high3:
  "2 \<le> length p \<Longrightarrow> hb c \<Longrightarrow> hb (p ! 0) \<Longrightarrow> hb (p ! 1) \<Longrightarrow> list_all plain (take 3 (c # p))"
proof -
  assume a: "2 \<le> length p" "hb c" "hb (p ! 0)" "hb (p ! 1)"
  then obtain x y q where "p = x # y # q"
    by (cases p; cases "tl p") auto
  with a show ?thesis by (simp add: hb_plain numeral_3_eq_3)
qed

lemma take_high4:
  "3 \<le> length p \<Longrightarrow> hb c \<Longrightarrow> hb (p ! 0) \<Longrightarrow> hb (p ! 1) \<Longrightarrow> hb (p ! 2)
     \<Longrightarrow> list_all plain (take 4 (c # p))"
proof -
  assume a: "3 \<le> length p" "hb c" "hb (p ! 0)" "hb (p ! 1)" "hb (p ! 2)"
  then obtain x y z q where "p = x # y # z # q"
    by (cases p; cases "tl p"; cases "tl (tl p)") auto
  with a show ?thesis by (simp add: hb_plain eval_nat_numeral)
qed

text \<open>The bytes of one decoded scalar satisfy the invariant of the word type it is given.\<close>

lemma scalar_pendingOk:
  assumes "DecodeRune p = (r, sz)" and "p \<noteq> []"
  shows "0 < sz \<and> sz \<le> length p \<and> pendingOk (classify U r sz) (take sz p)"
proof -
  from assms(2) obtain c q where p: "p = c # q" by (cases p) auto
  from DecodeRune_cases [OF assms(1) [unfolded p]]
  consider (ascii) "sz = 1" "\<not> hb c" "r = of_char c"
    | (bad) "sz = 1" "hb c"
    | (two) "sz = 2" "1 \<le> length q" "hb c" "hb (q ! 0)"
    | (three) "sz = 3" "2 \<le> length q" "hb c" "hb (q ! 0)" "hb (q ! 1)"
    | (four) "sz = 4" "3 \<le> length q" "hb c" "hb (q ! 0)" "hb (q ! 1)" "hb (q ! 2)"
    by blast
  then show ?thesis
  proof cases
    case ascii
    have "pendingOk (classify U (of_char c) 1) [c]"
      using ascii(2)
      by (auto simp: pendingOk_def classify_def IsLetter_def IsNumber_def plain_def hb_def
          space_code [symmetric])
    with ascii p show ?thesis by simp
  next
    case bad
    then have "list_all plain [c]" by (simp add: hb_plain)
    then have "pendingOk ty [c]" for ty
      using plain_nospace [of "[c]"] by (cases ty) (auto simp: pendingOk_def)
    with bad p show ?thesis by simp
  next
    case two
    have pl: "list_all plain (take 2 (c # q))" by (rule take_high2 [OF two(2-4)])
    then have "pendingOk ty (take 2 (c # q))" for ty
      using plain_nospace [OF pl] by (cases ty) (auto simp: pendingOk_def)
    from this [of "classify U r sz"] two p show ?thesis by simp
  next
    case three
    have pl: "list_all plain (take 3 (c # q))" by (rule take_high3 [OF three(2-5)])
    then have "pendingOk ty (take 3 (c # q))" for ty
      using plain_nospace [OF pl] by (cases ty) (auto simp: pendingOk_def)
    from this [of "classify U r sz"] three p show ?thesis by simp
  next
    case four
    have pl: "list_all plain (take 4 (c # q))" by (rule take_high4 [OF four(2-6)])
    then have "pendingOk ty (take 4 (c # q))" for ty
      using plain_nospace [OF pl] by (cases ty) (auto simp: pendingOk_def)
    from this [of "classify U r sz"] four p show ?thesis by simp
  qed
qed

lemma pendingOk_append:
  "ty \<noteq> wordOther \<Longrightarrow> pendingOk ty a \<Longrightarrow> pendingOk ty b \<Longrightarrow> pendingOk ty (a @ b)"
  by (cases ty) (auto simp: pendingOk_def)

lemma slice_extend:
  "ws \<le> current \<Longrightarrow> slice t ws (current + sz) = slice t ws current @ take sz (drop current t)"
proof -
  assume "ws \<le> current"
  then have "current + sz - ws = (current - ws) + sz" by simp
  then have "take (current + sz - ws) (drop ws t)
      = take (current - ws) (drop ws t) @ take sz (drop (current - ws) (drop ws t))"
    by (simp only: take_add)
  with \<open>ws \<le> current\<close> show ?thesis by (simp add: slice_def)
qed

lemma take_slice: "ws \<le> current \<Longrightarrow> take ws t @ slice t ws current = take current t"
proof -
  assume "ws \<le> current"
  then have "take current t = take (ws + (current - ws)) t" by simp
  also have "\<dots> = take ws t @ take (current - ws) (drop ws t)" by (simp only: take_add)
  finally show ?thesis by (simp add: slice_def)
qed

lemma splitInv_emit:
  assumes "splitInv t current ty ws out"
  shows "concat (if current \<noteq> 0 then appendWord out ty (slice t ws current) else out)
         = toLower (filter (\<lambda>c. c \<noteq> CHR '' '') (take current t))"
proof -
  from assms have s: "ws \<le> current"
    and c: "concat out = toLower (filter (\<lambda>c. c \<noteq> CHR '' '') (take ws t))"
    and p: "pendingOk ty (slice t ws current)"
    by (simp_all add: splitInv_def)
  have "concat (appendWord out ty (slice t ws current))
        = toLower (filter (\<lambda>c. c \<noteq> CHR '' '') (take ws t @ slice t ws current))"
    by (simp add: appendWord_concat [OF p] c toLower_append)
  with s c show ?thesis by (auto simp: take_slice)
qed

lemma splitLoop_inv:
  "splitInv t current ty ws out \<Longrightarrow>
   splitLoop U t current ty ws out = (current', ty', ws', out') \<Longrightarrow>
   current' = length t \<and> splitInv t current' ty' ws' out'"
proof (induction U t current ty ws out rule: splitLoop.induct)
  case (1 U t current ty ws out)
  show ?case
  proof (cases "current < length t")
    case False
    with "1.prems"(2) have "(current', ty', ws', out') = (current, ty, ws, out)"
      by (subst (asm) splitLoop.simps) simp
    with "1.prems"(1) False show ?thesis by (auto simp: splitInv_def)
  next
    case True
    obtain r sz where d: "DecodeRune (drop current t) = (r, sz)" by fastforce
    from True have "drop current t \<noteq> []" by simp
    from scalar_pendingOk [OF d this, of U]
    have sz: "0 < sz" "current + sz \<le> length t"
      and ok: "pendingOk (classify U r sz) (take sz (drop current t))" by auto
    from "1.prems"(1) have st: "ws \<le> current" by (simp add: splitInv_def)
    show ?thesis
    proof (cases "classify U r sz \<noteq> ty \<or> classify U r sz = wordOther")
      case c: True
      let ?out = "if current \<noteq> 0 then appendWord out ty (slice t ws current) else out"
      have inv: "splitInv t (current + sz) (classify U r sz) current ?out"
        unfolding splitInv_def
        using sz ok splitInv_emit [OF "1.prems"(1)] by (simp add: slice_def)
      from "1.prems"(2) True d c
      have "splitLoop U t (current + sz) (classify U r sz) current ?out
            = (current', ty', ws', out')"
        by (subst (asm) splitLoop.simps) (simp add: Let_def)
      from "1.IH"(1) [OF True d [symmetric] refl c inv this] show ?thesis .
    next
      case c: False
      then have ty: "classify U r sz = ty" "ty \<noteq> wordOther" by auto
      from "1.prems"(1) have "pendingOk ty (slice t ws current)" by (simp add: splitInv_def)
      from pendingOk_append [OF ty(2) this] ok ty(1)
      have "pendingOk ty (slice t ws (current + sz))" by (simp add: slice_extend [OF st])
      with "1.prems"(1) sz have inv: "splitInv t (current + sz) ty ws out"
        by (simp add: splitInv_def)
      from "1.prems"(2) True d c
      have "splitLoop U t (current + sz) ty ws out = (current', ty', ws', out')"
        by (subst (asm) splitLoop.simps) (simp add: Let_def)
      from "1.IH"(2) [OF True d [symmetric] refl c inv this] show ?thesis .
    qed
  qed
qed

lemma splitTextToWords_concat:
  "concat (splitTextToWords U t) = toLower (filter (\<lambda>c. c \<noteq> CHR '' '') t)"
proof -
  obtain current ty ws out where r: "splitLoop U t 0 wordAlpha 0 [] = (current, ty, ws, out)"
    using prod_cases4 by blast
  have "splitInv t 0 wordAlpha 0 []"
    by (simp add: splitInv_def pendingOk_def slice_def toLower_def)
  from splitLoop_inv [OF this r] have c: "current = length t" and i: "splitInv t current ty ws out"
    by auto
  from splitInv_emit [OF i] c r show ?thesis by (auto simp: splitTextToWords_def)
qed

lemma atoms_no_space_byte:
  assumes "a \<in> set (splitTextToWords U t)"
  shows "CHR '' '' \<notin> set a"
proof -
  have "CHR '' '' \<notin> set (toLower (filter (\<lambda>c. c \<noteq> CHR '' '') t))"
    by (rule toLower_nospace) simp
  then have "CHR '' '' \<notin> set (concat (splitTextToWords U t))"
    unfolding splitTextToWords_concat .
  with assms show ?thesis by auto
qed

text \<open>
  C9: the atoms of \<open>Je56 su4904is 1enchant\<close>\<open>e-acute\<close>\<open>000\<close>\<open>U+624D\<close>\<open>11\<close>, the accented letter
  being the bytes \<open>C3 A9\<close> and the ideograph the bytes \<open>E6 89 8D\<close>, are \<open>je\<close>, \<open>56\<close>, \<open>su\<close>,
  \<open>4904\<close>, \<open>is\<close>, \<open>1\<close>, \<open>enchant\<close>\<open>e-acute\<close>, \<open>000\<close>, \<open>U+624D\<close>, \<open>11\<close>, in that order, whatever
  the range tables above Latin-1 are.
\<close>

theorem splitTextToWords_mixed_sample:
  "splitTextToWords U
     (''Je56 su4904is 1enchant'' @ [CHR 0xC3, CHR 0xA9] @ ''000''
        @ [CHR 0xE6, CHR 0x89, CHR 0x8D] @ ''11'')
   = [''je'', ''56'', ''su'', ''4904'', ''is'', ''1'', ''enchant'' @ [CHR 0xC3, CHR 0xA9],
      ''000'', [CHR 0xE6, CHR 0x89, CHR 0x8D], ''11'']"
  by (simp add: splitEval)

text \<open>
  C8 (as stated, refuted): a tab is white space, and the atoms of the one-byte input
  \<open>"\\t"\<close> are the tab itself.
\<close>

theorem splitTextToWords_tab_counterexample:
  "[CHR 0x09] \<in> set (splitTextToWords latin1Tables [CHR 0x09]) \<and>
   list_all (\<lambda>c. IsSpaceLatin1 (of_char c)) [CHR 0x09]"
  by (simp add: splitEval IsSpaceLatin1_def)

text \<open>
  C8 (amended): no atom returned by \<open>splitTextToWords\<close> contains the space byte \<open>0x20\<close>: every
  ASCII space of the input is discarded at atomization time. The space bytes are all that is
  discarded: the atoms, concatenated, are the other bytes of the input in their order, the
  upper-case ASCII letters lowered.
\<close>

theorem splitTextToWords_no_space:
  "(\<forall>a \<in> set (splitTextToWords U t). CHR '' '' \<notin> set a)
   \<and> concat (splitTextToWords U t) = toLower (filter (\<lambda>c. c \<noteq> CHR '' '') t)"
  using atoms_no_space_byte [of _ U t] splitTextToWords_concat [of U t] by blast

theorem splitTextToWords_no_space_witness:
  "splitTextToWords latin1Tables ''a b'' = [''a'', ''b''] \<and>
   CHR '' '' \<notin> set ''a'' \<and> CHR '' '' \<notin> set ''b'' \<and>
   concat (splitTextToWords latin1Tables ''a b'') = ''ab''"
proof -
  have m: "splitTextToWords latin1Tables ''a b'' = [''a'', ''b'']"
    by (simp add: splitEval)
  have e: "toLower (filter (\<lambda>c. c \<noteq> CHR '' '') ''a b'') = ''ab''"
    by (simp add: toLower_def)
  from splitTextToWords_no_space [of latin1Tables "''a b''"] m e show ?thesis by simp
qed

section \<open>The float32 rounding: proofs\<close>

text \<open>The integers below \<open>2 ^ 24\<close> in magnitude are float32 numbers: rounding leaves them.\<close>

lemma roundHalfEven_of_int: "roundHalfEven (of_int z) = z"
  by (simp add: roundHalfEven_def)

lemma float32_zero: "float32 0 = 0"
  by (simp add: float32_def)

lemma float32_of_int:
  assumes "\<bar>n\<bar> < 2 ^ 24"
  shows "float32 (of_int n) = of_int n"
proof (cases "n = 0")
  case True
  then show ?thesis by (simp add: float32_def)
next
  case False
  define e where "e = max \<lfloor>log 2 \<bar>of_int n :: real\<bar>\<rfloor> (- 126) - 23"
  from False have p: "0 < \<bar>of_int n :: real\<bar>" by simp
  from assms have "\<bar>of_int n :: real\<bar> < 2 ^ 24"
    by (metis of_int_abs of_int_less_numeral_power_cancel_iff)
  then have "\<bar>of_int n :: real\<bar> < 2 powr 24" by simp
  with p have "log 2 \<bar>of_int n :: real\<bar> < 24" by (simp add: log_less_iff)
  then have "\<lfloor>log 2 \<bar>of_int n :: real\<bar>\<rfloor> \<le> 23" by (simp add: floor_le_iff)
  then have e0: "e \<le> 0" by (simp add: e_def)
  define k where "k = nat (- e)"
  from e0 have ek: "e = - int k" by (simp add: k_def)
  have u: "2 powr (of_int e :: real) = 1 / 2 ^ k"
    unfolding ek by (simp add: powr_minus powr_realpow divide_inverse)
  have q: "(of_int n :: real) / 2 powr of_int e = of_int (n * 2 ^ k)" by (simp add: u)
  have r: "roundHalfEven ((of_int n :: real) / 2 powr of_int e) = n * 2 ^ k"
    unfolding q by (rule roundHalfEven_of_int)
  have "float32 (of_int n) = of_int (roundHalfEven (of_int n / 2 powr of_int e)) * 2 powr of_int e"
    using False by (simp add: float32_def e_def Let_def)
  also have "\<dots> = of_int (n * 2 ^ k) * (1 / 2 ^ k)"
    by (simp only: r, simp only: u)
  also have "\<dots> = of_int n" by simp
  finally show ?thesis .
qed

lemma float32_numeral: "(numeral w :: int) < 16777216 \<Longrightarrow> float32 (numeral w) = numeral w"
  using float32_of_int [of "numeral w"] by simp

lemma float32_one: "float32 1 = 1"
  using float32_of_int [of 1] by simp

section \<open>The segmenter: evaluation rules\<close>

lemma forwardLoop_step:
  "current < length t \<Longrightarrow> forwardLoop h d searchMode t current jumpers =
        (let baseDistance = (if current = 0 then 0 else minDistance (jumpers ! (current - 1)));
             toks = lookupTokens h d
                      (slice t current (min (current + maxTokenLength d) (length t)))
         in case relaxTokens h searchMode (length t) current baseDistance toks jumpers of
              Inl e \<Rightarrow> Inl e
            | Inr js \<Rightarrow>
                forwardLoop h d searchMode t (current + 1)
                  (relaxFallback h t current baseDistance toks js))"
  by (subst forwardLoop.simps) simp

lemma forwardLoop_done:
  "\<not> current < length t \<Longrightarrow> forwardLoop h d searchMode t current jumpers = Inr jumpers"
  by (subst forwardLoop.simps) simp

lemma countLoop_step:
  "index \<ge> 0 \<Longrightarrow> countLoop h jumpers index numSeg =
        (case jtoken (jumpers ! nat index) of
           None \<Rightarrow> Some (Inl NilPointer)
         | Some tk \<Rightarrow>
             countLoop h jumpers (index - int (length (toktext (deref h tk)))) (numSeg + 1))"
  by (subst countLoop.simps) simp

lemma countLoop_done: "index < 0 \<Longrightarrow> countLoop h jumpers index numSeg = Some (Inr numSeg)"
  by (subst countLoop.simps) simp

lemma fillLoop_step:
  "index \<ge> 0 \<Longrightarrow> fillLoop h jumpers index numSeg outputSegments =
        (case jtoken (jumpers ! nat index) of
           None \<Rightarrow> Some (Inl NilPointer)
         | Some tk \<Rightarrow>
             if numSeg = 0 \<or> numSeg - 1 \<ge> length outputSegments then Some (Inl IndexOutOfRange)
             else fillLoop h jumpers (index - int (length (toktext (deref h tk)))) (numSeg - 1)
                    (outputSegments[numSeg - 1 :=
                       (outputSegments ! (numSeg - 1))\<lparr>token := Some tk\<rparr>]))"
  by (subst fillLoop.simps) simp

lemma fillLoop_done:
  "index < 0 \<Longrightarrow> fillLoop h jumpers index numSeg outputSegments = Some (Inr outputSegments)"
  by (subst fillLoop.simps) simp

lemmas segEval = forwardLoop_step forwardLoop_done countLoop_step countLoop_done fillLoop_step
  fillLoop_done lookupTokens_def relaxFallback_def updateJumper_def slice_def Let_def
  sort_key_def fallbackToken_def textSliceByteLength_def outputSegmentsOf_def segmentWords_def
  internalSegment_def Segment_def float32_numeral float32_zero float32_one

section \<open>Properties of the relax rule\<close>

lemma updateJumper_minDistance_le:
  "float32 (b + distance (deref h r)) \<noteq> 0 \<Longrightarrow>
   minDistance (updateJumper h j b r) \<noteq> 0 \<and>
   minDistance (updateJumper h j b r) \<le> float32 (b + distance (deref h r))"
  by (auto simp: updateJumper_def Let_def)

text \<open>
  C3 (as stated, refuted): two candidates relaxed at one position with the same path distance
  5; the jumper keeps the one relaxed first, not the one relaxed last.
\<close>

theorem updateJumper_tie_counterexample:
  "2 + distance (deref tieHeap (Stored 0)) = 2 + distance (deref tieHeap (Stored 1)) \<and>
   jtoken (updateJumper tieHeap
            (updateJumper tieHeap \<lparr>minDistance = 0, jtoken = None\<rparr> 2 (Stored 0))
            2 (Stored 1)) = Some (Stored 0) \<and>
   jtoken (updateJumper tieHeap
            (updateJumper tieHeap \<lparr>minDistance = 0, jtoken = None\<rparr> 2 (Stored 0))
            2 (Stored 1)) \<noteq> Some (Stored 1)"
  by (simp add: updateJumper_def tieHeap_def Let_def float32_numeral)

text \<open>
  C3 (amended): when two candidates relaxed one after the other at the same position yield
  the same non-zero path distance (the float32 sums that \<open>updateJumper\<close> compares are equal),
  the second relaxation leaves the jumper as the first one left it: the comparison is strict,
  so a tie never replaces the stored token.
\<close>

theorem updateJumper_tie_keeps_first:
  assumes "float32 (b1 + distance (deref h r1)) = float32 (b2 + distance (deref h r2))"
    and "float32 (b1 + distance (deref h r1)) \<noteq> 0"
  shows "updateJumper h (updateJumper h j b1 r1) b2 r2 = updateJumper h j b1 r1"
proof -
  from assms(2) have "minDistance (updateJumper h j b1 r1) \<noteq> 0"
    and "minDistance (updateJumper h j b1 r1) \<le> float32 (b1 + distance (deref h r1))"
    using updateJumper_minDistance_le by blast+
  with assms(1) show ?thesis
    by (simp add: updateJumper_def [of h "updateJumper h j b1 r1"] Let_def)
qed

theorem updateJumper_tie_keeps_first_witness:
  "float32 (2 + distance (deref tieHeap (Stored 0)))
     = float32 (2 + distance (deref tieHeap (Stored 1))) \<and>
   float32 (2 + distance (deref tieHeap (Stored 0))) \<noteq> 0 \<and>
   updateJumper tieHeap
     (updateJumper tieHeap \<lparr>minDistance = 0, jtoken = None\<rparr> 2 (Stored 0)) 2 (Stored 1)
   = updateJumper tieHeap \<lparr>minDistance = 0, jtoken = None\<rparr> 2 (Stored 0)"
proof -
  have e: "float32 (2 + distance (deref tieHeap (Stored 0)))
             = float32 (2 + distance (deref tieHeap (Stored 1)))"
    by (simp add: tieHeap_def)
  have n: "float32 (2 + distance (deref tieHeap (Stored 0))) \<noteq> 0"
    by (simp add: tieHeap_def float32_numeral)
  from updateJumper_tie_keeps_first [OF e n] e n show ?thesis by blast
qed

section \<open>The segmenter: proofs\<close>

lemma lookupTokens_set:
  "r \<in> set (lookupTokens h d ws) \<Longrightarrow>
   \<exists>i. r = Stored i \<and> i \<in> set (tokens d) \<and> take (length (toktext (h ! i))) ws = toktext (h ! i)"
  by (auto simp: lookupTokens_def)

lemma lookupTokens_cand:
  assumes "dictOk h d" and "current < length t"
    and "r \<in> set (lookupTokens h d (slice t current (min (current + m) (length t))))"
  shows "cand h t current r"
proof -
  let ?ws = "slice t current (min (current + m) (length t))"
  from lookupTokens_set [OF assms(3)] obtain i where r: "r = Stored i" and i: "i \<in> set (tokens d)"
    and p: "take (length (toktext (h ! i))) ?ws = toktext (h ! i)" by blast
  let ?w = "toktext (h ! i)"
  from assms(1) i have ne: "?w \<noteq> []" by (auto simp: dictOk_def list_all_iff)
  have "length (take (length ?w) ?ws) = length ?w" by (simp only: p)
  then have le: "length ?w \<le> length ?ws" by simp
  have lws: "length ?ws \<le> length t - current" by (simp add: slice_def)
  from le lws assms(2) have b: "current + length ?w \<le> length t" by linarith
  define k where "k = min (current + m) (length t) - current"
  from le have "length ?w \<le> k" by (simp add: slice_def k_def)
  then have "take (length ?w) (take k (drop current t)) = take (length ?w) (drop current t)"
    by (simp add: min_def)
  then have "take (length ?w) ?ws = take (length ?w) (drop current t)"
    by (simp add: slice_def k_def)
  with p have "?w = slice t current (current + length ?w)" by (simp add: slice_def)
  with ne b r show ?thesis by (simp add: cand_def Let_def)
qed

lemma updateJumper_jok:
  assumes "jok h t sm i j" and "tokAt h t sm i tk"
  shows "jok h t sm i (updateJumper h j b tk) \<and> jtoken (updateJumper h j b tk) \<noteq> None"
  using assms by (auto simp: updateJumper_def jok_def Let_def split: option.splits)

lemma cand_tokAt:
  assumes "cand h t current tk"
    and "\<not> sm \<or> current \<noteq> 0 \<or> int current + int (length (toktext (deref h tk))) - 1 \<noteq> int (length t) - 1"
  shows "tokAt h t sm (current + length (toktext (deref h tk)) - 1) tk"
proof -
  let ?w = "toktext (deref h tk)"
  from assms(1) have ne: "1 \<le> length ?w" and b: "current + length ?w \<le> length t"
    and w: "?w = slice t current (current + length ?w)"
    by (simp_all add: cand_def Let_def Suc_le_eq)
  from ne have e: "current + length ?w - 1 + 1 = current + length ?w"
    "current + length ?w - length ?w = current" by simp_all
  from assms(2) ne have "sm \<and> current + length ?w = length t \<longrightarrow> length ?w \<le> current + length ?w - 1"
    by auto
  with ne w show ?thesis
    unfolding tokAt_def Let_def e by simp
qed

lemma relaxTokens_Cons_relax:
  assumes "int current + int (length (toktext (deref h tk))) - 1 = int loc"
    and "loc < length js" and "\<not> sm \<or> current \<noteq> 0 \<or> int loc \<noteq> int n - 1"
  shows "relaxTokens h sm n current b (tk # tks) js
         = relaxTokens h sm n current b tks (js[loc := updateJumper h (js ! loc) b tk])"
  using assms by (simp add: Let_def)

lemma relaxTokens_Cons_skip:
  assumes "int current + int (length (toktext (deref h tk))) - 1 = int loc"
    and "\<not> (\<not> sm \<or> current \<noteq> 0 \<or> int loc \<noteq> int n - 1)"
  shows "relaxTokens h sm n current b (tk # tks) js = relaxTokens h sm n current b tks js"
  using assms by (simp add: Let_def)

lemma relaxTokens_ok:
  assumes "length js = length t" and "\<forall>i < length t. jok h t sm i (js ! i)"
    and "\<forall>r \<in> set toks. cand h t current r"
  shows "\<exists>js'. relaxTokens h sm (length t) current b toks js = Inr js'
           \<and> length js' = length t \<and> (\<forall>i < length t. jok h t sm i (js' ! i))
           \<and> (\<forall>i < length t. jtoken (js ! i) \<noteq> None \<longrightarrow> jtoken (js' ! i) \<noteq> None)
           \<and> (toks \<noteq> [] \<and> length (toktext (deref h (hd toks))) = 1
                \<and> \<not> (sm \<and> current = 0 \<and> length t = 1) \<longrightarrow> jtoken (js' ! current) \<noteq> None)"
  using assms
proof (induction toks arbitrary: js)
  case Nil
  then show ?case by simp
next
  case (Cons tk tks)
  let ?w = "toktext (deref h tk)"
  let ?loc = "current + length ?w - 1"
  from Cons.prems(3) have c: "cand h t current tk" and cs: "\<forall>r \<in> set tks. cand h t current r"
    by simp_all
  from c have ne: "1 \<le> length ?w" and bd: "current + length ?w \<le> length t"
    by (simp_all add: cand_def Let_def Suc_le_eq)
  from ne bd have loc: "?loc < length t" by linarith
  from ne have iloc: "int current + int (length ?w) - 1 = int ?loc" by linarith
  from loc Cons.prems(1) have locjs: "?loc < length js" by simp
  show ?case
  proof (cases "\<not> sm \<or> current \<noteq> 0 \<or> int ?loc \<noteq> int (length t) - 1")
    case True
    let ?js = "js[?loc := updateJumper h (js ! ?loc) b tk]"
    from True iloc have "\<not> sm \<or> current \<noteq> 0 \<or> int current + int (length ?w) - 1 \<noteq> int (length t) - 1"
      by presburger
    from cand_tokAt [OF c this] have ta: "tokAt h t sm ?loc tk" .
    from Cons.prems(2) loc have "jok h t sm ?loc (js ! ?loc)" by blast
    from updateJumper_jok [OF this ta, of b]
    have u1: "jok h t sm ?loc (updateJumper h (js ! ?loc) b tk)"
      and u2: "jtoken (updateJumper h (js ! ?loc) b tk) \<noteq> None" by blast+
    have l: "length ?js = length t" using Cons.prems(1) by simp
    have j: "\<forall>i < length t. jok h t sm i (?js ! i)"
    proof (intro allI impI)
      fix i assume "i < length t"
      with Cons.prems(1,2) u1 show "jok h t sm i (?js ! i)"
        by (cases "i = ?loc") simp_all
    qed
    have k: "jtoken (?js ! i) \<noteq> None" if "i < length t" "jtoken (js ! i) \<noteq> None" for i
      using that Cons.prems(1) u2 by (cases "i = ?loc") simp_all
    from Cons.IH [OF l j cs] obtain js' where
      r: "relaxTokens h sm (length t) current b tks ?js = Inr js'" and
      l': "length js' = length t" and j': "\<forall>i < length t. jok h t sm i (js' ! i)" and
      k': "\<forall>i < length t. jtoken (?js ! i) \<noteq> None \<longrightarrow> jtoken (js' ! i) \<noteq> None" by blast
    have e: "relaxTokens h sm (length t) current b (tk # tks) js = Inr js'"
      by (simp only: relaxTokens_Cons_relax [OF iloc locjs True] r)
    have f: "jtoken (js' ! current) \<noteq> None" if "length ?w = 1"
    proof -
      from that have lc: "?loc = current" by simp
      from locjs u2 have "jtoken (?js ! ?loc) \<noteq> None" by simp
      with k' loc have "jtoken (js' ! ?loc) \<noteq> None" by blast
      with lc show ?thesis by simp
    qed
    have g: "\<forall>i < length t. jtoken (js ! i) \<noteq> None \<longrightarrow> jtoken (js' ! i) \<noteq> None"
      using k k' by blast
    show ?thesis
    proof (intro exI [of _ js'] conjI)
      show "relaxTokens h sm (length t) current b (tk # tks) js = Inr js'" by (rule e)
      show "length js' = length t" by (rule l')
      show "\<forall>i < length t. jok h t sm i (js' ! i)" by (rule j')
      show "\<forall>i < length t. jtoken (js ! i) \<noteq> None \<longrightarrow> jtoken (js' ! i) \<noteq> None" by (rule g)
      show "tk # tks \<noteq> [] \<and> length (toktext (deref h (hd (tk # tks)))) = 1
            \<and> \<not> (sm \<and> current = 0 \<and> length t = 1) \<longrightarrow> jtoken (js' ! current) \<noteq> None"
        using f by simp
    qed
  next
    case False
    then have sk: "sm" "current = 0" "?loc = length t - 1" by auto
    from Cons.IH [OF Cons.prems(1,2) cs] obtain js' where
      r: "relaxTokens h sm (length t) current b tks js = Inr js'" and
      l': "length js' = length t" and j': "\<forall>i < length t. jok h t sm i (js' ! i)" and
      k': "\<forall>i < length t. jtoken (js ! i) \<noteq> None \<longrightarrow> jtoken (js' ! i) \<noteq> None" by blast
    have e: "relaxTokens h sm (length t) current b (tk # tks) js = Inr js'"
      by (simp only: relaxTokens_Cons_skip [OF iloc False] r)
    have f: "length t = 1" if "length ?w = 1"
    proof -
      from that sk have "length t - 1 = 0" by simp
      moreover from loc have "0 < length t" by linarith
      ultimately show ?thesis by linarith
    qed
    show ?thesis
    proof (intro exI [of _ js'] conjI)
      show "relaxTokens h sm (length t) current b (tk # tks) js = Inr js'" by (rule e)
      show "length js' = length t" by (rule l')
      show "\<forall>i < length t. jok h t sm i (js' ! i)" by (rule j')
      show "\<forall>i < length t. jtoken (js ! i) \<noteq> None \<longrightarrow> jtoken (js' ! i) \<noteq> None" by (rule k')
      show "tk # tks \<noteq> [] \<and> length (toktext (deref h (hd (tk # tks)))) = 1
            \<and> \<not> (sm \<and> current = 0 \<and> length t = 1) \<longrightarrow> jtoken (js' ! current) \<noteq> None"
        using f sk by auto
    qed
  qed
qed

lemma relaxFallback_ok:
  assumes "current < length t" and "length js = length t"
    and "\<forall>i < length t. jok h t sm i (js ! i)"
    and "sm \<longrightarrow> length t \<noteq> 1"
  shows "length (relaxFallback h t current b toks js) = length t
       \<and> (\<forall>i < length t. jok h t sm i (relaxFallback h t current b toks js ! i))
       \<and> (\<forall>i < length t. jtoken (js ! i) \<noteq> None
              \<longrightarrow> jtoken (relaxFallback h t current b toks js ! i) \<noteq> None)
       \<and> ((toks = [] \<or> length (toktext (deref h (hd toks))) > 1)
              \<longrightarrow> jtoken (relaxFallback h t current b toks js ! current) \<noteq> None)"
proof (cases "toks = [] \<or> length (toktext (deref h (hd toks))) > 1")
  case False
  then have "relaxFallback h t current b toks js = js" by (simp add: relaxFallback_def)
  with assms False show ?thesis by simp
next
  case True
  let ?tk = "Synthetic (t ! current)"
  let ?js = "js[current := updateJumper h (js ! current) b ?tk]"
  from True have e: "relaxFallback h t current b toks js = ?js" by (simp add: relaxFallback_def)
  have "slice t current (Suc current) = [t ! current]"
    using assms(1) by (simp add: slice_def take_Suc_conv_app_nth)
  with assms(1,4) have ta: "tokAt h t sm current ?tk"
    by (auto simp: tokAt_def fallbackToken_def Let_def)
  from assms(1,3) have "jok h t sm current (js ! current)" by blast
  from updateJumper_jok [OF this ta, of b]
  have u1: "jok h t sm current (updateJumper h (js ! current) b ?tk)"
    and u2: "jtoken (updateJumper h (js ! current) b ?tk) \<noteq> None" by blast+
  have j: "jok h t sm i (?js ! i)" if "i < length t" for i
    using that assms(2,3) u1 by (cases "i = current") simp_all
  have k: "jtoken (?js ! i) \<noteq> None" if "i < length t" "jtoken (js ! i) \<noteq> None" for i
    using that assms(2) u2 by (cases "i = current") simp_all
  have c: "jtoken (?js ! current) \<noteq> None" using assms(1,2) u2 by simp
  show ?thesis unfolding e using assms(2) j k c by simp
qed

lemma forwardLoop_ok:
  assumes "dictOk h d" and "sm \<longrightarrow> length t \<noteq> 1" and "jumpersOk h t sm current js"
  shows "\<exists>js'. forwardLoop h d sm t current js = Inr js' \<and> jumpersOk h t sm (length t) js'"
  using assms
proof (induction h d sm t current js rule: forwardLoop.induct)
  case (1 h d sm t current js)
  show ?case
  proof (cases "current < length t")
    case False
    with "1.prems"(3) have "jumpersOk h t sm (length t) js" by (simp add: jumpersOk_def)
    with False show ?thesis by (simp add: forwardLoop_done)
  next
    case True
    define b where "b = (if current = 0 then 0 else minDistance (js ! (current - 1)))"
    define toks where
      "toks = lookupTokens h d (slice t current (min (current + maxTokenLength d) (length t)))"
    from "1.prems"(3) have l: "length js = length t"
      and j: "\<forall>i < length t. jok h t sm i (js ! i)"
      and k: "\<forall>i < length t. i < current \<longrightarrow> jtoken (js ! i) \<noteq> None"
      by (simp_all add: jumpersOk_def)
    have cs: "\<forall>r \<in> set toks. cand h t current r"
      using lookupTokens_cand [OF "1.prems"(1) True] by (simp add: toks_def)
    from relaxTokens_ok [OF l j cs, of b] obtain js1 where
      r: "relaxTokens h sm (length t) current b toks js = Inr js1" and
      l1: "length js1 = length t" and j1: "\<forall>i < length t. jok h t sm i (js1 ! i)" and
      k1: "\<forall>i < length t. jtoken (js ! i) \<noteq> None \<longrightarrow> jtoken (js1 ! i) \<noteq> None" and
      f1: "toks \<noteq> [] \<and> length (toktext (deref h (hd toks))) = 1
           \<and> \<not> (sm \<and> current = 0 \<and> length t = 1) \<longrightarrow> jtoken (js1 ! current) \<noteq> None"
      by blast
    let ?js2 = "relaxFallback h t current b toks js1"
    from relaxFallback_ok [OF True l1 j1 "1.prems"(2), of b toks]
    have l2: "length ?js2 = length t" and j2: "\<forall>i < length t. jok h t sm i (?js2 ! i)"
      and k2: "\<forall>i < length t. jtoken (js1 ! i) \<noteq> None \<longrightarrow> jtoken (?js2 ! i) \<noteq> None"
      and f2: "(toks = [] \<or> length (toktext (deref h (hd toks))) > 1)
                \<longrightarrow> jtoken (?js2 ! current) \<noteq> None"
      by blast+
    have c2: "jtoken (?js2 ! current) \<noteq> None"
    proof (cases "toks = [] \<or> length (toktext (deref h (hd toks))) > 1")
      case True
      with f2 show ?thesis by blast
    next
      case False
      then have ne: "toks \<noteq> []" and le: "length (toktext (deref h (hd toks))) \<le> 1" by auto
      from ne cs have "cand h t current (hd toks)" by simp
      then have "toktext (deref h (hd toks)) \<noteq> []" by (simp add: cand_def Let_def)
      with le have "length (toktext (deref h (hd toks))) = 1"
        by (cases "toktext (deref h (hd toks))") simp_all
      with ne f1 "1.prems"(2) have "jtoken (js1 ! current) \<noteq> None" by blast
      with k2 True show ?thesis by blast
    qed
    have "jumpersOk h t sm (current + 1) ?js2"
      unfolding jumpersOk_def
    proof (intro conjI allI impI)
      show "length ?js2 = length t" by (rule l2)
    next
      fix i assume "i < length t"
      with j2 show "jok h t sm i (?js2 ! i)" by blast
    next
      fix i assume i: "i < length t" "i < current + 1"
      show "jtoken (?js2 ! i) \<noteq> None"
      proof (cases "i = current")
        case True
        with c2 show ?thesis by simp
      next
        case False
        with i have "i < current" by simp
        with k i(1) have "jtoken (js ! i) \<noteq> None" by blast
        with k1 i(1) have "jtoken (js1 ! i) \<noteq> None" by blast
        with k2 i(1) show ?thesis by blast
      qed
    qed
    from "1.IH" [OF True b_def toks_def r "1.prems"(1,2) this]
    obtain js' where "forwardLoop h d sm t (current + 1) ?js2 = Inr js'"
      and "jumpersOk h t sm (length t) js'" by blast
    moreover have "forwardLoop h d sm t current js = forwardLoop h d sm t (current + 1) ?js2"
      using True r by (simp add: forwardLoop_step [OF True] Let_def b_def toks_def)
    ultimately show ?thesis by simp
  qed
qed

lemma jumpersOk_initial:
  "jumpersOk h t sm 0 (replicate (length t) \<lparr>minDistance = 0, jtoken = None\<rparr>)"
  by (simp add: jumpersOk_def jok_def)

lemma jumpersOk_filled: "jumpersOk h t sm (length t) js \<Longrightarrow> filled h js"
proof -
  assume a: "jumpersOk h t sm (length t) js"
  show ?thesis
    unfolding filled_def
  proof (intro allI impI)
    fix i assume i: "i < length js"
    with a have il: "i < length t" by (simp add: jumpersOk_def)
    with a obtain tk where s: "jtoken (js ! i) = Some tk" by (auto simp: jumpersOk_def)
    from a il have "jok h t sm i (js ! i)" by (simp add: jumpersOk_def)
    with s have "tokAt h t sm i tk" by (simp add: jok_def)
    then have "toktext (deref h tk) \<noteq> []" by (auto simp: tokAt_def Let_def)
    with s show "\<exists>tk. jtoken (js ! i) = Some tk \<and> toktext (deref h tk) \<noteq> []" by blast
  qed
qed

lemma backPath_step:
  assumes "0 \<le> index" and "jtoken (js ! nat index) = Some tk" and "toktext (deref h tk) \<noteq> []"
  shows "backPath h js index = backPath h js (index - int (length (toktext (deref h tk)))) @ [tk]"
  using assms by (subst backPath.simps) simp

lemma backPath_neg: "index < 0 \<Longrightarrow> backPath h js index = []"
  by (subst backPath.simps) simp

lemma filledD:
  assumes "filled h js" and "0 \<le> index" and "index < int (length js)"
  obtains tk where "jtoken (js ! nat index) = Some tk" and "toktext (deref h tk) \<noteq> []"
proof -
  from assms(2,3) have "nat index < length js" by simp
  with assms(1) show ?thesis using that by (auto simp: filled_def)
qed

lemma countLoop_total:
  "filled h js \<Longrightarrow> index < int (length js) \<Longrightarrow>
         countLoop h js index k = Some (Inr (k + length (backPath h js index)))"
proof (induction h js index arbitrary: k rule: backPath.induct)
  case (1 h js index)
  show ?case
  proof (cases "index < 0")
    case True
    then show ?thesis by (simp add: countLoop_done backPath_neg)
  next
    case False
    then have i0: "0 \<le> index" by simp
    from filledD [OF "1.prems"(1) i0 "1.prems"(2)] obtain tk
      where s: "jtoken (js ! nat index) = Some tk"
      and ne: "toktext (deref h tk) \<noteq> []" by blast
    let ?next = "index - int (length (toktext (deref h tk)))"
    from "1.prems" have "?next < int (length js)" by simp
    from "1.IH" [OF False s ne "1.prems"(1) this, of "k + 1"]
    have "countLoop h js ?next (k + 1) = Some (Inr (k + 1 + length (backPath h js ?next)))" .
    then show ?thesis
      by (simp add: countLoop_step [OF i0] s backPath_step [OF i0 s ne])
  qed
qed

lemma fillLoop_total:
  "filled h js \<Longrightarrow> index < int (length js) \<Longrightarrow> length (backPath h js index) \<le> k \<Longrightarrow>
         fillLoop h js index k (replicate k s0 @ rest)
         = Some (Inr (replicate (k - length (backPath h js index)) s0
                      @ map (\<lambda>tk. s0\<lparr>token := Some tk\<rparr>) (backPath h js index) @ rest))"
proof (induction h js index arbitrary: k rest rule: backPath.induct)
  case (1 h js index)
  show ?case
  proof (cases "index < 0")
    case True
    then show ?thesis by (simp add: fillLoop_done backPath_neg)
  next
    case False
    then have i0: "0 \<le> index" by simp
    from filledD [OF "1.prems"(1) i0 "1.prems"(2)] obtain tk
      where s: "jtoken (js ! nat index) = Some tk"
      and ne: "toktext (deref h tk) \<noteq> []" by blast
    let ?next = "index - int (length (toktext (deref h tk)))"
    let ?p = "backPath h js ?next"
    have bp: "backPath h js index = ?p @ [tk]" by (rule backPath_step [OF i0 s ne])
    with "1.prems"(3) have k: "0 < k" "length ?p \<le> k - 1" by simp_all
    from "1.prems"(2) have nx: "?next < int (length js)" by simp
    have upd: "(replicate k s0 @ rest)[k - 1 := ((replicate k s0 @ rest) ! (k - 1))\<lparr>token := Some tk\<rparr>]
               = replicate (k - 1) s0 @ (s0\<lparr>token := Some tk\<rparr> # rest)"
    proof -
      from k(1) have "replicate k s0 = replicate (k - 1) s0 @ [s0]"
        by (metis Suc_diff_1 replicate_Suc replicate_append_same)
      then show ?thesis by (simp add: list_update_append nth_append)
    qed
    from "1.IH" [OF False s ne "1.prems"(1) nx k(2), of "s0\<lparr>token := Some tk\<rparr> # rest"]
    have "fillLoop h js ?next (k - 1) (replicate (k - 1) s0 @ (s0\<lparr>token := Some tk\<rparr> # rest))
          = Some (Inr (replicate (k - 1 - length ?p) s0
                       @ map (\<lambda>tk. s0\<lparr>token := Some tk\<rparr>) ?p @ (s0\<lparr>token := Some tk\<rparr> # rest)))" .
    moreover have "fillLoop h js index k (replicate k s0 @ rest)
          = fillLoop h js ?next (k - 1) (replicate (k - 1) s0 @ (s0\<lparr>token := Some tk\<rparr> # rest))"
    proof -
      from k(1) have c: "\<not> (k = 0 \<or> k - 1 \<ge> length (replicate k s0 @ rest))" by simp
      show ?thesis
        by (simp only: fillLoop_step [OF i0] s option.case if_not_P [OF c] upd)
    qed
    ultimately show ?thesis by (simp add: bp)
  qed
qed

lemma backPath_members:
  "filled h js \<Longrightarrow> index < int (length js) \<Longrightarrow> tk \<in> set (backPath h js index) \<Longrightarrow>
   \<exists>i < length js. jtoken (js ! i) = Some tk"
proof (induction h js index rule: backPath.induct)
  case (1 h js index)
  show ?case
  proof (cases "index < 0")
    case True
    with "1.prems"(3) show ?thesis by (simp add: backPath_neg)
  next
    case False
    then have i0: "0 \<le> index" by simp
    from filledD [OF "1.prems"(1) i0 "1.prems"(2)] obtain tk'
      where s: "jtoken (js ! nat index) = Some tk'"
      and ne: "toktext (deref h tk') \<noteq> []" by blast
    let ?next = "index - int (length (toktext (deref h tk')))"
    from "1.prems"(2) have nx: "?next < int (length js)" by simp
    from "1.prems"(3) have "tk \<in> set (backPath h js ?next) \<or> tk = tk'"
      by (auto simp: backPath_step [OF i0 s ne])
    then show ?thesis
    proof
      assume "tk \<in> set (backPath h js ?next)"
      from "1.IH" [OF False s ne "1.prems"(1) nx this] show ?thesis .
    next
      assume "tk = tk'"
      moreover from i0 "1.prems"(2) have "nat index < length js" by simp
      ultimately show ?thesis using s by blast
    qed
  qed
qed

lemma backPath_concat:
  "jumpersOk h t sm (length t) js \<Longrightarrow> index < int (length t) \<Longrightarrow>
   concat (map (\<lambda>tk. toktext (deref h tk)) (backPath h js index)) = take (nat (index + 1)) t"
proof (induction h js index rule: backPath.induct)
  case (1 h js index)
  show ?case
  proof (cases "index < 0")
    case True
    then show ?thesis by (simp add: backPath_neg)
  next
    case False
    then have i0: "0 \<le> index" by simp
    from "1.prems"(1) have fl: "filled h js" by (rule jumpersOk_filled)
    from "1.prems"(1) have l: "length js = length t" by (simp add: jumpersOk_def)
    from "1.prems"(2) l have il: "index < int (length js)" by simp
    from filledD [OF fl i0 il] obtain tk
      where s: "jtoken (js ! nat index) = Some tk"
      and ne: "toktext (deref h tk) \<noteq> []" by blast
    let ?w = "toktext (deref h tk)"
    let ?next = "index - int (length ?w)"
    from i0 "1.prems" have "jok h t sm (nat index) (js ! nat index)" by (simp add: jumpersOk_def)
    with s have "tokAt h t sm (nat index) tk" by (simp add: jok_def)
    then have le: "length ?w \<le> nat index + 1"
      and w: "?w = slice t (nat index + 1 - length ?w) (nat index + 1)"
      by (simp_all add: tokAt_def Let_def)
    from "1.prems"(2) have nx: "?next < int (length t)" by simp
    from "1.IH" [OF False s ne "1.prems"(1) nx]
    have "concat (map (\<lambda>tk. toktext (deref h tk)) (backPath h js ?next)) = take (nat (?next + 1)) t" .
    moreover from le i0 have "nat (?next + 1) = nat index + 1 - length ?w" by linarith
    moreover have "take (nat index + 1 - length ?w) t @ slice t (nat index + 1 - length ?w) (nat index + 1)
                   = take (nat index + 1) t"
      by (rule take_slice) simp
    moreover from i0 have "nat (index + 1) = nat index + 1" by simp
    ultimately show ?thesis
      using w by (simp add: backPath_step [OF i0 s ne])
  qed
qed

lemma foldl_byteLength:
  "foldl (\<lambda>len word. len + int (length word)) a t = a + int (length (concat t))"
  by (induction t arbitrary: a) simp_all

lemma textSliceByteLength_concat: "textSliceByteLength t = int (length (concat t))"
  by (simp add: textSliceByteLength_def foldl_byteLength)

lemma assignSpans_path:
  "\<exists>out. assignSpans h b (map (\<lambda>tk. s0\<lparr>token := Some tk\<rparr>) p) = Inr out
     \<and> map token out = map Some p
     \<and> spanSum out = int (length (concat (concat (map (\<lambda>tk. toktext (deref h tk)) p))))"
proof (induction p arbitrary: b)
  case Nil
  show ?case by (simp add: spanSum_def)
next
  case (Cons tk p)
  let ?b = "b + textSliceByteLength (toktext (deref h tk))"
  from Cons [of ?b] obtain out where
    a: "assignSpans h ?b (map (\<lambda>tk. s0\<lparr>token := Some tk\<rparr>) p) = Inr out"
    and m: "map token out = map Some p"
    and s: "spanSum out = int (length (concat (concat (map (\<lambda>tk. toktext (deref h tk)) p))))"
    by blast
  let ?seg = "s0\<lparr>token := Some tk, start := b, endp := ?b\<rparr>"
  have "assignSpans h b (map (\<lambda>tk. s0\<lparr>token := Some tk\<rparr>) (tk # p)) = Inr (?seg # out)"
    using a by (simp add: Let_def)
  moreover have "map token (?seg # out) = map Some (tk # p)" using m by simp
  moreover have "spanSum (?seg # out)
      = int (length (concat (concat (map (\<lambda>tk. toktext (deref h tk)) (tk # p)))))"
    using s by (simp add: spanSum_def textSliceByteLength_concat)
  ultimately show ?case by blast
qed

lemma filterStop_filter:
  "list_all (\<lambda>s. token s \<noteq> None) segs \<Longrightarrow>
   filterStop h segs = Inr (filter (\<lambda>s. \<not> isStop h s) segs)"
  by (induction segs) (auto simp: isStop_def)

lemma spanSum_split:
  "spanSum (filter (\<lambda>s. \<not> P s) segs) + spanSum (filter P segs) = spanSum segs"
  by (induction segs) (simp_all add: spanSum_def)

lemma outputSegmentsOf_ok:
  assumes "dictOk h d" and "sm \<longrightarrow> length t \<noteq> 1"
  shows "\<exists>js out. forwardLoop h d sm t 0
                      (replicate (length t) \<lparr>minDistance = 0, jtoken = None\<rparr>) = Inr js
           \<and> jumpersOk h t sm (length t) js
           \<and> outputSegmentsOf h d t sm = Some (Inr out)
           \<and> map token out = map Some (backPath h js (int (length t) - 1))
           \<and> spanSum out = textSliceByteLength t"
proof -
  from forwardLoop_ok [OF assms jumpersOk_initial] obtain js where
    f: "forwardLoop h d sm t 0 (replicate (length t) \<lparr>minDistance = 0, jtoken = None\<rparr>) = Inr js"
    and ok: "jumpersOk h t sm (length t) js" by blast
  from ok have fl: "filled h js" by (rule jumpersOk_filled)
  from ok have l: "length js = length t" by (simp add: jumpersOk_def)
  let ?i = "int (length t) - 1"
  let ?p = "backPath h js ?i"
  let ?s0 = "\<lparr>start = 0, endp = 0, token = None\<rparr>"
  from l have il: "?i < int (length js)" by simp
  have c: "countLoop h js ?i 0 = Some (Inr (length ?p))"
    using countLoop_total [OF fl il, of 0] by simp
  have "fillLoop h js ?i (length ?p) (replicate (length ?p) ?s0 @ [])
        = Some (Inr (replicate (length ?p - length ?p) ?s0
                     @ map (\<lambda>tk. ?s0\<lparr>token := Some tk\<rparr>) ?p @ []))"
    by (rule fillLoop_total [OF fl il]) simp
  then have g: "fillLoop h js ?i (length ?p) (replicate (length ?p) ?s0)
        = Some (Inr (map (\<lambda>tk. ?s0\<lparr>token := Some tk\<rparr>) ?p))" by simp
  from assignSpans_path [of h 0 ?s0 ?p] obtain out where
    a: "assignSpans h 0 (map (\<lambda>tk. ?s0\<lparr>token := Some tk\<rparr>) ?p) = Inr out"
    and m: "map token out = map Some ?p"
    and s: "spanSum out = int (length (concat (concat (map (\<lambda>tk. toktext (deref h tk)) ?p))))"
    by blast
  have "concat (map (\<lambda>tk. toktext (deref h tk)) ?p) = take (nat (?i + 1)) t"
    by (rule backPath_concat [OF ok]) simp
  with s have s': "spanSum out = textSliceByteLength t"
    by (simp add: textSliceByteLength_concat)
  from a have a': "assignSpans h 0 (map (\<lambda>tk. \<lparr>start = 0, endp = 0, token = Some tk\<rparr>) ?p) = Inr out"
    by simp
  from g have g': "fillLoop h js ?i (length ?p) (replicate (length ?p) ?s0)
        = Some (Inr (map (\<lambda>tk. \<lparr>start = 0, endp = 0, token = Some tk\<rparr>) ?p))" by simp
  have "outputSegmentsOf h d t sm = Some (Inr out)"
    by (simp add: outputSegmentsOf_def f c g' a')
  with f ok m s' show ?thesis by blast
qed

lemma jumpersOk_positions:
  assumes "jumpersOk h t sm (length t) js" and "i < length t"
  shows "\<exists>tk. jtoken (js ! i) = Some tk \<and> tokAt h t sm i tk"
proof -
  from assms obtain tk where s: "jtoken (js ! i) = Some tk" by (auto simp: jumpersOk_def)
  from assms have "jok h t sm i (js ! i)" by (simp add: jumpersOk_def)
  with s show ?thesis by (simp add: jok_def)
qed

text \<open>
  C4: for a dictionary whose tokens all have at least one atom, a non-empty atom sequence (of
  length at least 2 in search mode) leaves the forward loop without a panic and with a token
  of at least one atom at every position, so each step of the backward scans strictly
  decreases \<open>index\<close>; both scans end (their value is not \<open>None\<close>) without dereferencing a nil
  token (their value is not a panic), and every output segment has received its token.
\<close>

theorem forward_fills_every_position:
  assumes "dictOk h d" and "t \<noteq> []" and "searchMode \<Longrightarrow> 2 \<le> length t"
  shows "\<exists>js. forwardLoop h d searchMode t 0
                 (replicate (length t) \<lparr>minDistance = 0, jtoken = None\<rparr>) = Inr js
          \<and> length js = length t
          \<and> (\<forall>i < length t. \<exists>tk. jtoken (js ! i) = Some tk
                  \<and> 1 \<le> length (toktext (deref h tk))
                  \<and> int i - int (length (toktext (deref h tk))) < int i)
          \<and> (\<exists>numSeg out.
                 countLoop h js (int (length t) - 1) 0 = Some (Inr numSeg)
               \<and> fillLoop h js (int (length t) - 1) numSeg
                     (replicate numSeg \<lparr>start = 0, endp = 0, token = None\<rparr>) = Some (Inr out)
               \<and> length out = numSeg \<and> list_all (\<lambda>s. token s \<noteq> None) out)"
proof -
  from assms(3) have sm: "searchMode \<longrightarrow> length t \<noteq> 1" by auto
  from forwardLoop_ok [OF assms(1) sm jumpersOk_initial] obtain js where
    f: "forwardLoop h d searchMode t 0
          (replicate (length t) \<lparr>minDistance = 0, jtoken = None\<rparr>) = Inr js"
    and ok: "jumpersOk h t searchMode (length t) js" by blast
  from ok have fl: "filled h js" by (rule jumpersOk_filled)
  from ok have l: "length js = length t" by (simp add: jumpersOk_def)
  have p: "\<forall>i < length t. \<exists>tk. jtoken (js ! i) = Some tk
             \<and> 1 \<le> length (toktext (deref h tk))
             \<and> int i - int (length (toktext (deref h tk))) < int i"
  proof (intro allI impI)
    fix i assume "i < length t"
    from jumpersOk_positions [OF ok this] obtain tk where
      "jtoken (js ! i) = Some tk" and "tokAt h t searchMode i tk" by blast
    moreover from this(2) have "1 \<le> length (toktext (deref h tk))"
      by (simp add: tokAt_def Let_def)
    ultimately show "\<exists>tk. jtoken (js ! i) = Some tk
             \<and> 1 \<le> length (toktext (deref h tk))
             \<and> int i - int (length (toktext (deref h tk))) < int i"
      by auto
  qed
  let ?i = "int (length t) - 1"
  let ?p = "backPath h js ?i"
  let ?s0 = "\<lparr>start = 0, endp = 0, token = None\<rparr>"
  from l have il: "?i < int (length js)" by simp
  have c: "countLoop h js ?i 0 = Some (Inr (length ?p))"
    using countLoop_total [OF fl il, of 0] by simp
  have "fillLoop h js ?i (length ?p) (replicate (length ?p) ?s0 @ [])
        = Some (Inr (replicate (length ?p - length ?p) ?s0
                     @ map (\<lambda>tk. ?s0\<lparr>token := Some tk\<rparr>) ?p @ []))"
    by (rule fillLoop_total [OF fl il]) simp
  then have g: "fillLoop h js ?i (length ?p) (replicate (length ?p) ?s0)
        = Some (Inr (map (\<lambda>tk. ?s0\<lparr>token := Some tk\<rparr>) ?p))" by simp
  have "list_all (\<lambda>s. token s \<noteq> None) (map (\<lambda>tk. ?s0\<lparr>token := Some tk\<rparr>) ?p)"
    by (simp add: list_all_iff)
  with c g have "\<exists>numSeg out.
                 countLoop h js ?i 0 = Some (Inr numSeg)
               \<and> fillLoop h js ?i numSeg (replicate numSeg ?s0) = Some (Inr out)
               \<and> length out = numSeg \<and> list_all (\<lambda>s. token s \<noteq> None) out"
    by (intro exI [of _ "length ?p"] exI [of _ "map (\<lambda>tk. ?s0\<lparr>token := Some tk\<rparr>) ?p"]) simp
  with f l p show ?thesis by blast
qed

theorem forward_fills_every_position_witness:
  "dictOk zeroHeap zeroDict \<and> [''a'', ''b''] \<noteq> [] \<and> 2 \<le> length [''a'', ''b''] \<and>
   (\<exists>js. forwardLoop zeroHeap zeroDict True [''a'', ''b''] 0
                 (replicate (length [''a'', ''b'']) \<lparr>minDistance = 0, jtoken = None\<rparr>) = Inr js
          \<and> length js = length [''a'', ''b'']
          \<and> (\<forall>i < length [''a'', ''b'']. \<exists>tk. jtoken (js ! i) = Some tk
                  \<and> 1 \<le> length (toktext (deref zeroHeap tk))
                  \<and> int i - int (length (toktext (deref zeroHeap tk))) < int i)
          \<and> (\<exists>numSeg out.
                 countLoop zeroHeap js (int (length [''a'', ''b'']) - 1) 0 = Some (Inr numSeg)
               \<and> fillLoop zeroHeap js (int (length [''a'', ''b'']) - 1) numSeg
                     (replicate numSeg \<lparr>start = 0, endp = 0, token = None\<rparr>) = Some (Inr out)
               \<and> length out = numSeg \<and> list_all (\<lambda>s. token s \<noteq> None) out))"
proof -
  have d: "dictOk zeroHeap zeroDict" by (simp add: dictOk_def zeroHeap_def zeroDict_def)
  have n: "[''a'', ''b''] \<noteq> ([] :: Text list)" by simp
  have l: "2 \<le> length [''a'', ''b'']" by simp
  from forward_fills_every_position [OF d n l, of True] d n l show ?thesis by blast
qed

lemma segmentWords_filter:
  assumes "dictOk h d" and "sm \<longrightarrow> length t \<noteq> 1"
  shows "\<exists>js out. jumpersOk h t sm (length t) js
           \<and> outputSegmentsOf h d t sm = Some (Inr out)
           \<and> segmentWords h d t sm = Some (Inr (filter (\<lambda>s. \<not> isStop h s) out))
           \<and> (\<forall>s \<in> set out. \<exists>tk i. token s = Some tk \<and> i < length t \<and> jtoken (js ! i) = Some tk)
           \<and> spanSum out = textSliceByteLength t"
proof -
  from outputSegmentsOf_ok [OF assms] obtain js out where
    ok: "jumpersOk h t sm (length t) js"
    and o: "outputSegmentsOf h d t sm = Some (Inr out)"
    and m: "map token out = map Some (backPath h js (int (length t) - 1))"
    and s: "spanSum out = textSliceByteLength t" by blast
  from ok have fl: "filled h js" by (rule jumpersOk_filled)
  from ok have l: "length js = length t" by (simp add: jumpersOk_def)
  have mem: "\<exists>tk i. token s = Some tk \<and> i < length t \<and> jtoken (js ! i) = Some tk"
    if "s \<in> set out" for s
  proof -
    from that have "token s \<in> set (map token out)" by simp
    with m obtain tk where tk: "token s = Some tk" "tk \<in> set (backPath h js (int (length t) - 1))"
      by auto
    from l have "int (length t) - 1 < int (length js)" by simp
    from backPath_members [OF fl this tk(2)] l tk(1) show ?thesis by auto
  qed
  then have "list_all (\<lambda>s. token s \<noteq> None) out" by (auto simp: list_all_iff)
  then have "filterStop h out = Inr (filter (\<lambda>s. \<not> isStop h s) out)" by (rule filterStop_filter)
  moreover from assms(2) have "\<not> (sm \<and> length t = 1)" by blast
  ultimately have "segmentWords h d t sm = Some (Inr (filter (\<lambda>s. \<not> isStop h s) out))"
    using o by (auto simp: segmentWords_def)
  with ok o mem s show ?thesis by blast
qed

text \<open>
  C5: in search mode \<open>segmentWords\<close> returns, and no returned segment's token spans the whole
  input: for a one-atom input the result is empty, and otherwise every returned token has
  fewer atoms than the input (so it is not the input's own token).
\<close>

theorem segmentWords_search_never_whole:
  assumes "dictOk h d"
  shows "\<exists>segs. segmentWords h d t True = Some (Inr segs)
           \<and> (length t = 1 \<longrightarrow> segs = [])
           \<and> (\<forall>s \<in> set segs. \<exists>tk. token s = Some tk
                  \<and> length (toktext (deref h tk)) < length t \<and> toktext (deref h tk) \<noteq> t)"
proof (cases "length t = 1")
  case True
  then have "segmentWords h d t True = Some (Inr [])" by (simp add: segmentWords_def)
  with True show ?thesis by simp
next
  case False
  then have "True \<longrightarrow> length t \<noteq> 1" by simp
  from segmentWords_filter [OF assms this] obtain js out where
    ok: "jumpersOk h t True (length t) js"
    and sw: "segmentWords h d t True = Some (Inr (filter (\<lambda>s. \<not> isStop h s) out))"
    and mem: "\<forall>s \<in> set out. \<exists>tk i. token s = Some tk \<and> i < length t \<and> jtoken (js ! i) = Some tk"
    by blast
  have "\<exists>tk. token s = Some tk \<and> length (toktext (deref h tk)) < length t
           \<and> toktext (deref h tk) \<noteq> t"
    if "s \<in> set (filter (\<lambda>s. \<not> isStop h s) out)" for s
  proof -
    from that mem obtain tk i where tk: "token s = Some tk" "i < length t" "jtoken (js ! i) = Some tk"
      by auto
    from jumpersOk_positions [OF ok tk(2)] tk(3) have "tokAt h t True i tk" by simp
    then have "length (toktext (deref h tk)) \<le> i + 1"
      and "i + 1 = length t \<longrightarrow> length (toktext (deref h tk)) \<le> i"
      by (simp_all add: tokAt_def Let_def)
    with tk(2) have "length (toktext (deref h tk)) < length t" by linarith
    with tk(1) show ?thesis by auto
  qed
  with sw False show ?thesis by blast
qed

theorem segmentWords_search_never_whole_witness:
  "dictOk zeroHeap zeroDict \<and>
   (\<exists>segs. segmentWords zeroHeap zeroDict [''a'', ''b''] True = Some (Inr segs)
           \<and> (length [''a'', ''b''] = 1 \<longrightarrow> segs = [])
           \<and> (\<forall>s \<in> set segs. \<exists>tk. token s = Some tk
                  \<and> length (toktext (deref zeroHeap tk)) < length [''a'', ''b'']
                  \<and> toktext (deref zeroHeap tk) \<noteq> [''a'', ''b'']))"
proof -
  have d: "dictOk zeroHeap zeroDict" by (simp add: dictOk_def zeroHeap_def zeroDict_def)
  from segmentWords_search_never_whole [OF d, of "[''a'', ''b'']"] d show ?thesis by blast
qed

text \<open>
  C2 (amended): for a dictionary whose tokens all have at least one atom, \<open>Segment\<close> returns
  the segments of \<open>outputSegments\<close> that are not stop words, and the sum of \<open>end - start\<close> over
  the returned segments plus the segments dropped by the stop-word filter is the number of
  bytes of the input that are not the ASCII space: the atomizer discards the spaces before
  the byte positions are assigned.
\<close>

theorem Segment_coverage:
  assumes "dictOk h d"
  shows "\<exists>out. outputSegmentsOf h d (splitTextToWords U bytes) False = Some (Inr out)
           \<and> Segment U h d bytes = Some (Inr (filter (\<lambda>s. \<not> isStop h s) out))
           \<and> spanSum (filter (\<lambda>s. \<not> isStop h s) out) + spanSum (filter (isStop h) out)
               = int (length (filter (\<lambda>c. c \<noteq> CHR '' '') bytes))"
proof -
  let ?t = "splitTextToWords U bytes"
  have "False \<longrightarrow> length ?t \<noteq> 1" by simp
  from segmentWords_filter [OF assms this] obtain out where
    o: "outputSegmentsOf h d ?t False = Some (Inr out)"
    and sw: "segmentWords h d ?t False = Some (Inr (filter (\<lambda>s. \<not> isStop h s) out))"
    and s: "spanSum out = textSliceByteLength ?t" by blast
  have c: "textSliceByteLength ?t = int (length (filter (\<lambda>c. c \<noteq> CHR '' '') bytes))"
    by (simp add: textSliceByteLength_concat splitTextToWords_concat toLower_def)
  have e: "out = []" if "bytes = []"
  proof -
    from that c s have "spanSum out = 0" by simp
    from that have "?t = []" by (simp add: splitEval)
    with o show ?thesis
      by (simp add: outputSegmentsOf_def forwardLoop_done countLoop_done fillLoop_done)
  qed
  have "Segment U h d bytes = Some (Inr (filter (\<lambda>s. \<not> isStop h s) out))"
  proof (cases "bytes = []")
    case True
    with e show ?thesis by (simp add: Segment_def internalSegment_def)
  next
    case False
    with sw show ?thesis by (simp add: Segment_def internalSegment_def)
  qed
  with o s c spanSum_split [of "isStop h" out] show ?thesis by auto
qed

theorem Segment_coverage_witness:
  "dictOk demoHeap demoDict \<and>
   (\<exists>out. outputSegmentsOf demoHeap demoDict
             (splitTextToWords latin1Tables ''hello world'') False = Some (Inr out)
      \<and> Segment latin1Tables demoHeap demoDict ''hello world''
          = Some (Inr (filter (\<lambda>s. \<not> isStop demoHeap s) out))
      \<and> spanSum (filter (\<lambda>s. \<not> isStop demoHeap s) out) + spanSum (filter (isStop demoHeap) out)
          = int (length (filter (\<lambda>c. c \<noteq> CHR '' '') ''hello world'')))"
proof -
  have d: "dictOk demoHeap demoDict" by (simp add: dictOk_def demoHeap_def demoDict_def)
  from Segment_coverage [OF d, of latin1Tables "''hello world''"] d show ?thesis by blast
qed

section \<open>The forward loop as a fold over the candidates\<close>

lemma relaxTokens_foldl:
  assumes "length js = length t" and "\<forall>r \<in> set toks. cand h t current r"
  shows "relaxTokens h sm (length t) current b toks js
         = Inr (foldl (relax1 h current b) js (filter (notSkipped h sm (length t) current) toks))"
  using assms
proof (induction toks arbitrary: js)
  case Nil
  then show ?case by simp
next
  case (Cons tk tks)
  let ?w = "toktext (deref h tk)"
  let ?loc = "current + length ?w - 1"
  from Cons.prems(2) have c: "cand h t current tk" and cs: "\<forall>r \<in> set tks. cand h t current r"
    by simp_all
  from c have ne: "1 \<le> length ?w" and bd: "current + length ?w \<le> length t"
    by (simp_all add: cand_def Let_def Suc_le_eq)
  from ne bd have loc: "?loc < length t" by linarith
  from ne have iloc: "int current + int (length ?w) - 1 = int ?loc" by linarith
  from loc Cons.prems(1) have locjs: "?loc < length js" by simp
  show ?case
  proof (cases "notSkipped h sm (length t) current tk")
    case True
    then have ns: "\<not> sm \<or> current \<noteq> 0 \<or> int ?loc \<noteq> int (length t) - 1"
      unfolding notSkipped_def iloc .
    have l: "length (relax1 h current b js tk) = length t"
      using Cons.prems(1) by (simp add: relax1_def)
    have "relaxTokens h sm (length t) current b (tk # tks) js
          = relaxTokens h sm (length t) current b tks (relax1 h current b js tk)"
      by (simp only: relaxTokens_Cons_relax [OF iloc locjs ns] relax1_def)
    with Cons.IH [OF l cs] True show ?thesis by simp
  next
    case False
    then have ns: "\<not> (\<not> sm \<or> current \<noteq> 0 \<or> int ?loc \<noteq> int (length t) - 1)"
      unfolding notSkipped_def iloc .
    have "relaxTokens h sm (length t) current b (tk # tks) js
          = relaxTokens h sm (length t) current b tks js"
      by (simp only: relaxTokens_Cons_skip [OF iloc ns])
    with Cons.IH [OF Cons.prems(1) cs] False show ?thesis by simp
  qed
qed

lemma forward_iteration:
  assumes "dictOk h d" and "current < length t" and "length js = length t"
  shows "forwardLoop h d sm t current js
         = forwardLoop h d sm t (current + 1)
             (foldl (relax1 h current
                       (if current = 0 then 0 else minDistance (js ! (current - 1))))
                js (candidates h d sm t current))"
proof -
  define b where "b = (if current = 0 then 0 else minDistance (js ! (current - 1)))"
  define toks where
    "toks = lookupTokens h d (slice t current (min (current + maxTokenLength d) (length t)))"
  have cs: "\<forall>r \<in> set toks. cand h t current r"
    using lookupTokens_cand [OF assms(1,2)] by (simp add: toks_def)
  note r = relaxTokens_foldl [OF assms(3) cs, of sm b]
  have f: "relaxFallback h t current b toks js'
           = foldl (relax1 h current b) js'
               (if toks = [] \<or> length (toktext (deref h (hd toks))) > 1
                then [Synthetic (t ! current)] else [])" for js'
    by (simp add: relaxFallback_def relax1_def fallbackToken_def)
  have "forwardLoop h d sm t current js
        = (case relaxTokens h sm (length t) current b toks js of
             Inl e \<Rightarrow> Inl e
           | Inr js1 \<Rightarrow> forwardLoop h d sm t (current + 1)
                         (relaxFallback h t current b toks js1))"
    unfolding forwardLoop_step [OF assms(2)] b_def toks_def Let_def ..
  also have "\<dots> = forwardLoop h d sm t (current + 1)
                     (foldl (relax1 h current b) js (candidates h d sm t current))"
    unfolding r f candidates_def toks_def [symmetric] Let_def by simp
  finally show ?thesis unfolding b_def .
qed

section \<open>The dictionary loader and the spread: proofs\<close>

lemmas parseEval = parsePiece_def parseEntry_def strings_Trim_def matchDigits_def isDigit_def
  strconv_Atoi_def digitsValue_def minTokenFrequency_def parseLine_def Let_def

text \<open>
  C6 (the code at the failing input): the entry \<open>__VERTICAL_BAR__ 5\<close> has no POS field; its
  text is atomized as it stands, undecoded, into \<open>_\<close>, \<open>_\<close>, \<open>vertical\<close>, \<open>_\<close>, \<open>bar\<close>, \<open>_\<close>,
  \<open>_\<close>. The same text in the entry \<open>__VERTICAL_BAR__ 5 n\<close>, which has a POS field, is decoded
  to the one atom \<open>|\<close>.
\<close>

theorem parsePiece_no_pos_keeps_escape:
  "parsePiece U ''__VERTICAL_BAR__ 5'' =
     Append \<lparr>toktext = [''_'', ''_'', ''vertical'', ''_'', ''bar'', ''_'', ''_''], frequency = 5,
             distance = 0, pos = [], segments = [], synonyms = []\<rparr> \<and>
   parsePiece U ''__VERTICAL_BAR__ 5 n'' =
     Append \<lparr>toktext = [''|''], frequency = 5, distance = 0, pos = ''n'', segments = [],
             synonyms = []\<rparr>"
  by (simp add: parseEval splitEval)

lemma sameFields_refl: "sameFields a a"
  by (simp add: sameFields_def)

lemma sameFields_trans: "sameFields a b \<Longrightarrow> sameFields b c \<Longrightarrow> sameFields a c"
  by (simp add: sameFields_def)

lemma productToken_fields: "sameFields (productToken a w) a"
  by (simp add: productToken_def sameFields_def)

lemma cartesianOf_member:
  assumes "x \<in> set (cartesianOf h tk syns)"
  shows "\<exists>a w. a \<in> set syns \<and> x = productToken a w"
proof (cases "length (synonyms (deref h tk)) > 0")
  case True
  then have "cartesianOf h tk syns
      = concat (map (\<lambda>a. map (\<lambda>b. productToken a (toktext (deref h b)))
                             (synonyms (deref h tk))) syns)"
    by (simp add: cartesianOf_def)
  with assms show ?thesis by auto
next
  case False
  then have "cartesianOf h tk syns
      = concat (map (\<lambda>a. [productToken a (toktext (deref h tk))]) syns)"
    by (simp add: cartesianOf_def)
  with assms show ?thesis by auto
qed

lemma cartesianOf_fields:
  assumes "list_all (\<lambda>a. sameFields a src) syns"
  shows "list_all (\<lambda>a. sameFields a src) (cartesianOf h tk syns)"
  unfolding list_all_iff
proof
  fix x assume "x \<in> set (cartesianOf h tk syns)"
  from cartesianOf_member [OF this] obtain a w where a: "a \<in> set syns"
    and x: "x = productToken a w" by blast
  then have "sameFields x a" by (simp add: productToken_fields)
  moreover from assms a have "sameFields a src" by (simp add: list_all_iff)
  ultimately show "sameFields x src" by (rule sameFields_trans)
qed

lemma expandSynonyms_fields:
  "expandSynonyms h segs syns has = Inr (syns', has') \<Longrightarrow>
   list_all (\<lambda>a. sameFields a src) syns \<Longrightarrow> list_all (\<lambda>a. sameFields a src) syns'"
proof (induction segs arbitrary: syns has)
  case Nil
  then show ?case by simp
next
  case (Cons s segs)
  show ?case
  proof (cases "token s")
    case None
    with Cons.prems(1) have e: "syns = []" "expandSynonyms h segs [] has = Inr (syns', has')"
      by (simp_all split: if_splits)
    from Cons.IH [OF e(2)] show ?thesis by simp
  next
    case (Some tk)
    with Cons.prems(1) have
      "expandSynonyms h segs (cartesianOf h tk syns)
         (has \<or> (syns \<noteq> [] \<and> length (synonyms (deref h tk)) > 0)) = Inr (syns', has')"
      by simp
    from Cons.IH [OF this cartesianOf_fields [OF Cons.prems(2)]] show ?thesis .
  qed
qed

lemma addToken_tokens:
  "tokens (addToken h d r) = tokens d \<or> tokens (addToken h d r) = tokens d @ [r]"
  by (simp add: addToken_def)

lemma insertSynonyms_frame:
  "insertSynonyms src done todo (h, d) = Some (Inr (h', d')) \<Longrightarrow>
   length h' = length h \<and> (\<forall>r < length h. sameFields (h' ! r) (h ! r))
   \<and> set (tokens d') \<subseteq> set (tokens d) \<union> set todo"
proof (induction todo arbitrary: "done" h d)
  case Nil
  then show ?case by (simp add: sameFields_refl)
next
  case (Cons r todo)
  from Cons.prems obtain segs where
    sw: "segmentWords h d (toktext (h ! r)) True = Some (Inr segs)"
    by (auto split: option.splits sum.splits)
  define h1 where "h1 = h[r := (h ! r)\<lparr>segments := segments (h ! r) @ segs,
                                   synonyms := synonyms (h ! r) @ [Stored src]
                                                @ map Stored done @ map Stored todo\<rparr>]"
  from Cons.prems sw have
    "insertSynonyms src (done @ [r]) todo (h1, addToken h1 d r) = Some (Inr (h', d'))"
    by (simp add: h1_def Let_def)
  from Cons.IH [OF this] have l: "length h' = length h1"
    and f: "\<forall>k < length h1. sameFields (h' ! k) (h1 ! k)"
    and t: "set (tokens d') \<subseteq> set (tokens (addToken h1 d r)) \<union> set todo" by blast+
  have l1: "length h1 = length h" by (simp add: h1_def)
  have f1: "sameFields (h1 ! k) (h ! k)" if "k < length h" for k
    using that by (cases "k = r") (simp_all add: h1_def sameFields_def)
  have "sameFields (h' ! k) (h ! k)" if "k < length h" for k
    using that f f1 l1 sameFields_trans by metis
  moreover from t addToken_tokens [of h1 d r]
  have "set (tokens d') \<subseteq> set (tokens d) \<union> set (r # todo)" by auto
  ultimately show ?case using l l1 by simp
qed

lemma seedToken_fields: "sameFields (seedToken tk) tk"
  by (simp add: seedToken_def sameFields_def)

lemma expandToken_frame:
  assumes "expandToken i (h, d) = Some (Inr (h', d'))" and "i < length h"
  shows "length h \<le> length h' \<and> (\<forall>r < length h. sameFields (h' ! r) (h ! r))
       \<and> (\<forall>r \<in> set (tokens d'). r \<notin> set (tokens d) \<longrightarrow>
             length h \<le> r \<and> r < length h' \<and> sameFields (h' ! r) (h ! i))"
proof -
  from assms(1) obtain segs where
    sw: "segmentWords h d (toktext (h ! i)) True = Some (Inr segs)"
    by (auto simp: expandToken_def split: option.splits sum.splits)
  define h1 where "h1 = h[i := (h ! i)\<lparr>segments := segments (h ! i) @ segs\<rparr>]"
  have l1: "length h1 = length h" by (simp add: h1_def)
  have f1: "sameFields (h1 ! r) (h ! r)" if "r < length h" for r
    using that by (cases "r = i") (simp_all add: h1_def sameFields_def)
  from assms(1) sw obtain syns has where
    es: "expandSynonyms h1 (segments (h1 ! i)) [seedToken (h1 ! i)] False = Inr (syns, has)"
    by (auto simp: expandToken_def h1_def Let_def split: sum.splits)
  show ?thesis
  proof (cases has)
    case False
    with assms(1) sw es have "h' = h1" "d' = d"
      by (simp_all add: expandToken_def h1_def Let_def)
    with l1 f1 show ?thesis by simp
  next
    case True
    define refs where "refs = [length h1 ..< length h1 + length syns]"
    define h2 where "h2 = (h1 @ syns)[i := (h1 ! i)\<lparr>synonyms := map Stored refs\<rparr>]"
    from assms(1) sw es True have
      ins: "insertSynonyms i [] refs (h2, d) = Some (Inr (h', d'))"
      by (simp add: expandToken_def h1_def [symmetric] refs_def h2_def Let_def)
    from insertSynonyms_frame [OF ins] have l: "length h' = length h2"
      and f: "\<forall>r < length h2. sameFields (h' ! r) (h2 ! r)"
      and t: "set (tokens d') \<subseteq> set (tokens d) \<union> set refs" by blast+
    have l2: "length h2 = length h + length syns" by (simp add: h2_def l1)
    have f2: "sameFields (h2 ! r) (h ! r)" if "r < length h" for r
    proof (cases "r = i")
      case True
      with that have "h2 ! r = (h1 ! i)\<lparr>synonyms := map Stored refs\<rparr>"
        by (simp add: h2_def l1)
      then have "sameFields (h2 ! r) (h1 ! i)" by (simp add: sameFields_def)
      with f1 [OF assms(2)] True show ?thesis using sameFields_trans by blast
    next
      case False
      with that have "h2 ! r = h1 ! r" by (simp add: h2_def nth_append l1)
      with f1 [OF that] show ?thesis by simp
    qed
    have "list_all (\<lambda>a. sameFields a (h1 ! i)) [seedToken (h1 ! i)]"
      by (simp add: seedToken_fields)
    from expandSynonyms_fields [OF es this]
    have sf: "\<forall>a \<in> set syns. sameFields a (h1 ! i)" by (simp add: list_all_iff)
    have f3: "sameFields (h2 ! r) (h ! i)" if "length h \<le> r" "r < length h + length syns" for r
    proof -
      from that assms(2) have "r \<noteq> i" by simp
      with that have "h2 ! r = syns ! (r - length h)"
        by (simp add: h2_def nth_append l1)
      moreover from that have "syns ! (r - length h) \<in> set syns" by simp
      ultimately have "sameFields (h2 ! r) (h1 ! i)" using sf by simp
      with f1 [OF assms(2)] show ?thesis using sameFields_trans by blast
    qed
    have a: "sameFields (h' ! r) (h ! r)" if "r < length h" for r
    proof -
      from that l2 f have "sameFields (h' ! r) (h2 ! r)" by simp
      with f2 [OF that] show ?thesis using sameFields_trans by blast
    qed
    have b: "length h \<le> r \<and> r < length h' \<and> sameFields (h' ! r) (h ! i)"
      if "r \<in> set (tokens d')" "r \<notin> set (tokens d)" for r
    proof -
      from that t have "r \<in> set refs" by auto
      then have r: "length h \<le> r" "r < length h + length syns" by (simp_all add: refs_def l1)
      with l2 f have "sameFields (h' ! r) (h2 ! r)" by simp
      with f3 [OF r] have "sameFields (h' ! r) (h ! i)" using sameFields_trans by blast
      with r l l2 show ?thesis by simp
    qed
    from a b l l2 show ?thesis by simp
  qed
qed

lemma expandAll_frame:
  "expandAll is (h, d) = Some (Inr (h', d')) \<Longrightarrow> \<forall>i \<in> set is. i < length h \<Longrightarrow>
   length h \<le> length h' \<and> (\<forall>r < length h. sameFields (h' ! r) (h ! r))
   \<and> (\<forall>r \<in> set (tokens d'). r \<notin> set (tokens d) \<longrightarrow>
         (\<exists>i \<in> set is. sameFields (h' ! r) (h ! i)))"
proof (induction "is" arbitrary: h d)
  case Nil
  then show ?case by (simp add: sameFields_refl)
next
  case (Cons i rest)
  from Cons.prems(1) obtain h1 d1 where
    e: "expandToken i (h, d) = Some (Inr (h1, d1))"
    and r: "expandAll rest (h1, d1) = Some (Inr (h', d'))"
    by (auto split: option.splits sum.splits)
  from Cons.prems(2) have i: "i < length h" by simp
  from expandToken_frame [OF e i] have l1: "length h \<le> length h1"
    and f1: "\<forall>r < length h. sameFields (h1 ! r) (h ! r)"
    and n1: "\<forall>r \<in> set (tokens d1). r \<notin> set (tokens d) \<longrightarrow>
               length h \<le> r \<and> r < length h1 \<and> sameFields (h1 ! r) (h ! i)" by blast+
  from Cons.prems(2) l1 have "\<forall>j \<in> set rest. j < length h1" by auto
  from Cons.IH [OF r this] have l2: "length h1 \<le> length h'"
    and f2: "\<forall>r < length h1. sameFields (h' ! r) (h1 ! r)"
    and n2: "\<forall>r \<in> set (tokens d'). r \<notin> set (tokens d1) \<longrightarrow>
               (\<exists>j \<in> set rest. sameFields (h' ! r) (h1 ! j))" by blast+
  have a: "sameFields (h' ! r) (h ! r)" if "r < length h" for r
  proof -
    from that l1 f2 have "sameFields (h' ! r) (h1 ! r)" by simp
    with f1 that show ?thesis using sameFields_trans by blast
  qed
  have b: "\<exists>j \<in> set (i # rest). sameFields (h' ! r) (h ! j)"
    if "r \<in> set (tokens d')" "r \<notin> set (tokens d)" for r
  proof (cases "r \<in> set (tokens d1)")
    case True
    with n1 that(2) have "r < length h1" "sameFields (h1 ! r) (h ! i)" by blast+
    with f2 have "sameFields (h' ! r) (h ! i)" using sameFields_trans by blast
    then show ?thesis by simp
  next
    case False
    with n2 that(1) obtain j where j: "j \<in> set rest" "sameFields (h' ! r) (h1 ! j)" by blast
    from j(1) Cons.prems(2) have "j < length h" by simp
    with f1 have "sameFields (h1 ! j) (h ! j)" by simp
    with j show ?thesis using sameFields_trans by auto
  qed
  from a b l1 l2 show ?case by auto
qed

lemma assignDistances_foldl:
  "list_all (\<lambda>i. i < length h) xs \<Longrightarrow>
   length (foldl (\<lambda>h' i. h'[i := (h' ! i)\<lparr>distance := float32 (L - float32 (log 2 (real_of_int (frequency (h' ! i)))))\<rparr>]) h xs)
     = length h
   \<and> (\<forall>r < length h.
        frequency (foldl (\<lambda>h' i. h'[i := (h' ! i)\<lparr>distance := float32 (L - float32 (log 2 (real_of_int (frequency (h' ! i)))))\<rparr>]) h xs ! r)
          = frequency (h ! r)
      \<and> pos (foldl (\<lambda>h' i. h'[i := (h' ! i)\<lparr>distance := float32 (L - float32 (log 2 (real_of_int (frequency (h' ! i)))))\<rparr>]) h xs ! r)
          = pos (h ! r)
      \<and> (r \<in> set xs \<longrightarrow>
          distance (foldl (\<lambda>h' i. h'[i := (h' ! i)\<lparr>distance := float32 (L - float32 (log 2 (real_of_int (frequency (h' ! i)))))\<rparr>]) h xs ! r)
            = float32 (L - float32 (log 2 (real_of_int (frequency (h ! r)))))))"
proof (induction xs rule: rev_induct)
  case Nil
  then show ?case by simp
next
  case (snoc x xs)
  let ?f = "\<lambda>h' i. h'[i := (h' ! i)\<lparr>distance := float32 (L - float32 (log 2 (real_of_int (frequency (h' ! i)))))\<rparr>]"
  let ?g = "foldl ?f h xs"
  from snoc.prems have x: "x < length h" and xs: "list_all (\<lambda>i. i < length h) xs" by simp_all
  from snoc.IH [OF xs] have l: "length ?g = length h"
    and f: "\<forall>r < length h. frequency (?g ! r) = frequency (h ! r) \<and> pos (?g ! r) = pos (h ! r)
             \<and> (r \<in> set xs \<longrightarrow> distance (?g ! r) = float32 (L - float32 (log 2 (real_of_int (frequency (h ! r))))))"
    by blast+
  have e: "foldl ?f h (xs @ [x]) = ?g[x := (?g ! x)\<lparr>distance := float32 (L - float32 (log 2 (real_of_int (frequency (?g ! x)))))\<rparr>]"
    by simp
  show ?case
    unfolding e
  proof (intro conjI allI impI)
    show "length (?g[x := (?g ! x)\<lparr>distance := float32 (L - float32 (log 2 (real_of_int (frequency (?g ! x)))))\<rparr>]) = length h"
      using l by simp
  next
    fix r assume r: "r < length h"
    with l f show "frequency (?g[x := (?g ! x)\<lparr>distance := float32 (L - float32 (log 2 (real_of_int (frequency (?g ! x)))))\<rparr>] ! r)
        = frequency (h ! r)"
      by (cases "r = x") simp_all
  next
    fix r assume r: "r < length h"
    with l f show "pos (?g[x := (?g ! x)\<lparr>distance := float32 (L - float32 (log 2 (real_of_int (frequency (?g ! x)))))\<rparr>] ! r)
        = pos (h ! r)"
      by (cases "r = x") simp_all
  next
    fix r assume r: "r < length h" and m: "r \<in> set (xs @ [x])"
    show "distance (?g[x := (?g ! x)\<lparr>distance := float32 (L - float32 (log 2 (real_of_int (frequency (?g ! x)))))\<rparr>] ! r)
        = float32 (L - float32 (log 2 (real_of_int (frequency (h ! r)))))"
    proof (cases "r = x")
      case True
      with r l f show ?thesis by simp
    next
      case False
      with m have "r \<in> set xs" by simp
      with False r l f show ?thesis by simp
    qed
  qed
qed

lemma assignDistances_fields:
  assumes "list_all (\<lambda>i. i < length h) (tokens d)"
  shows "length (assignDistances h d) = length h"
    and "r < length h \<Longrightarrow> frequency (assignDistances h d ! r) = frequency (h ! r)"
    and "r < length h \<Longrightarrow> pos (assignDistances h d ! r) = pos (h ! r)"
    and "r \<in> set (tokens d) \<Longrightarrow> distance (assignDistances h d ! r)
           = float32 (float32 (log 2 (real_of_int (totalFrequency d)))
                      - float32 (log 2 (real_of_int (frequency (h ! r)))))"
proof -
  note a = assignDistances_foldl [OF assms, of "float32 (log 2 (real_of_int (totalFrequency d)))"]
  from a show "length (assignDistances h d) = length h"
    by (simp add: assignDistances_def Let_def)
  from a show "r < length h \<Longrightarrow> frequency (assignDistances h d ! r) = frequency (h ! r)"
    by (simp add: assignDistances_def Let_def)
  from a show "r < length h \<Longrightarrow> pos (assignDistances h d ! r) = pos (h ! r)"
    by (simp add: assignDistances_def Let_def)
  assume "r \<in> set (tokens d)"
  moreover from this assms have "r < length h" by (simp add: list_all_iff)
  ultimately show "distance (assignDistances h d ! r)
           = float32 (float32 (log 2 (real_of_int (totalFrequency d)))
                      - float32 (log 2 (real_of_int (frequency (h ! r)))))"
    using a by (simp add: assignDistances_def Let_def)
qed

lemma log2_pow: "log 2 (2 ^ n) = real n"
  by (simp add: log_nat_power)

lemma log2_values: "log 2 16 = 4" "log 2 8 = 3" "log 2 4 = 2"
  using log2_pow [of 4] log2_pow [of 3] log2_pow [of 2] by simp_all

lemmas loadEval = deriveAll_def assignDistances_def expandToken_def addToken_def seedToken_def
  productToken_def cartesianOf_def upt_rec log2_values

lemma deriveAll_example: "deriveAll loadedHeap synDict = Some (Inr (expandedHeap, expandedDict))"
  by (simp add: loadEval segEval loadedHeap_def synDict_def expandedHeap_def expandedDict_def
      numeral_2_eq_2 numeral_3_eq_3)

lemma SegmentsSpread_contains:
  "SegmentsSpread depth h segs = Some (Inr out) \<Longrightarrow> set segs \<subseteq> set out"
proof (induction depth h segs arbitrary: out rule: SegmentsSpread.induct)
  case (1 depth h)
  then show ?case by simp
next
  case (2 h s segs)
  then show ?case by simp
next
  case (3 depth h s segs)
  from "3.prems" obtain tk sub more where tk: "token s = Some tk"
    and sub: "SegmentsSpread depth h (segments (deref h tk)) = Some (Inr sub)"
    and more: "SegmentsSpread (Suc depth) h segs = Some (Inr more)"
    and out: "out = sub @ map (\<lambda>t. \<lparr>start = start s, endp = endp s, token = Some t\<rparr>)
                          (synonyms (deref h tk)) @ [s] @ more"
    by (auto split: option.splits sum.splits)
  from "3.IH"(2) [OF tk sub refl more] have "set segs \<subseteq> set more" .
  with out show ?case by auto
qed

lemma spread_example:
  "FullSegment 2 latin1Tables expandedHeap expandedDict ''w x z''
   = Some (Inr [\<lparr>start = 0, endp = 1, token = Some (Synthetic ''w'')\<rparr>,
                \<lparr>start = 0, endp = 1, token = Some (Stored 1)\<rparr>,
                \<lparr>start = 0, endp = 1, token = Some (Stored 0)\<rparr>,
                \<lparr>start = 1, endp = 2, token = Some (Synthetic ''z'')\<rparr>,
                \<lparr>start = 1, endp = 3, token = Some (Stored 3)\<rparr>,
                \<lparr>start = 1, endp = 3, token = Some (Stored 2)\<rparr>])"
  by (simp add: FullSegment_def segEval splitEval expandedHeap_def expandedDict_def
      numeral_2_eq_2 numeral_3_eq_3)

lemma insertSynonyms_untouched:
  "insertSynonyms src done todo (h, d) = Some (Inr (h', d')) \<Longrightarrow> k \<notin> set todo \<Longrightarrow>
   h' ! k = h ! k"
proof (induction todo arbitrary: "done" h d)
  case Nil
  then show ?case by simp
next
  case (Cons r todo)
  from Cons.prems(1) obtain segs where
    sw: "segmentWords h d (toktext (h ! r)) True = Some (Inr segs)"
    by (auto split: option.splits sum.splits)
  define h1 where "h1 = h[r := (h ! r)\<lparr>segments := segments (h ! r) @ segs,
                                   synonyms := synonyms (h ! r) @ [Stored src]
                                                @ map Stored done @ map Stored todo\<rparr>]"
  from Cons.prems(1) sw have
    "insertSynonyms src (done @ [r]) todo (h1, addToken h1 d r) = Some (Inr (h', d'))"
    by (simp add: h1_def Let_def)
  from Cons.IH [OF this] Cons.prems(2) have "h' ! k = h1 ! k" by simp
  with Cons.prems(2) show ?case by (simp add: h1_def)
qed

lemma expandToken_segments:
  assumes "expandToken i (h, d) = Some (Inr (h', d'))" and "i < length h"
  shows "\<exists>segs. segmentWords h d (toktext (h ! i)) True = Some (Inr segs)
           \<and> segments (h' ! i) = segments (h ! i) @ segs"
proof -
  from assms(1) obtain segs where
    sw: "segmentWords h d (toktext (h ! i)) True = Some (Inr segs)"
    by (auto simp: expandToken_def split: option.splits sum.splits)
  define h1 where "h1 = h[i := (h ! i)\<lparr>segments := segments (h ! i) @ segs\<rparr>]"
  have s1: "segments (h1 ! i) = segments (h ! i) @ segs" using assms(2) by (simp add: h1_def)
  from assms(1) sw obtain syns has where
    es: "expandSynonyms h1 (segments (h1 ! i)) [seedToken (h1 ! i)] False = Inr (syns, has)"
    by (auto simp: expandToken_def h1_def Let_def split: sum.splits)
  have "segments (h' ! i) = segments (h1 ! i)"
  proof (cases has)
    case False
    with assms(1) sw es have "h' = h1" by (simp add: expandToken_def h1_def Let_def)
    then show ?thesis by simp
  next
    case True
    define refs where "refs = [length h1 ..< length h1 + length syns]"
    define h2 where "h2 = (h1 @ syns)[i := (h1 ! i)\<lparr>synonyms := map Stored refs\<rparr>]"
    from assms(1) sw es True have
      ins: "insertSynonyms i [] refs (h2, d) = Some (Inr (h', d'))"
      by (simp add: expandToken_def h1_def [symmetric] refs_def h2_def Let_def)
    from assms(2) have "i \<notin> set refs" by (simp add: refs_def h1_def)
    from insertSynonyms_untouched [OF ins this] have "h' ! i = h2 ! i" .
    moreover from assms(2) have "h2 ! i = (h1 ! i)\<lparr>synonyms := map Stored refs\<rparr>"
      by (simp add: h2_def h1_def)
    ultimately show ?thesis by simp
  qed
  with sw s1 show ?thesis by simp
qed

section \<open>Dictionaries loaded from files\<close>

lemma parseLine_zero:
  "parseLine U ''a b 5'' = zeroParsed"
  by (simp add: parseEval splitEval zeroParsed_def)

lemma loadLine_zero: "loadLine U ([], NewDictionary) ''a b 5'' = (zeroParsed, zeroDict)"
  by (simp add: loadLine_def parseLine_zero NewDictionary_def addToken_def zeroDict_def Let_def
      zeroParsed_def)

lemma deriveAll_zero: "deriveAll zeroParsed zeroDict = Some (Inr (zeroHeap, zeroDict))"
  by (simp add: loadEval segEval zeroParsed_def zeroHeap_def zeroDict_def numeral_2_eq_2)

lemma LoadDictionary_zero: "LoadDictionary U [''a b 5''] = Some (Inr (zeroHeap, zeroDict))"
  by (simp add: LoadDictionary_def loadLine_zero deriveAll_zero)

lemma parseLine_demo:
  "parseLine U ''hello 4 p2'' = [demoParsed ! 0]"
  "parseLine U ''hello world 4 p1'' = [demoParsed ! 1]"
  by (simp_all add: parseEval splitEval demoParsed_def)

lemma loadLine_demo:
  "loadLine U (loadLine U ([], NewDictionary) ''hello 4 p2'') ''hello world 4 p1''
   = (demoParsed, demoDict)"
  by (simp add: loadLine_def parseLine_demo NewDictionary_def addToken_def demoDict_def Let_def
      demoParsed_def)

lemma deriveAll_demo: "deriveAll demoParsed demoDict = Some (Inr (demoHeap, demoDict))"
  by (simp add: loadEval segEval demoParsed_def demoHeap_def demoDict_def numeral_2_eq_2)

lemma LoadDictionary_demo:
  "LoadDictionary U [''hello 4 p2'', ''hello world 4 p1''] = Some (Inr (demoHeap, demoDict))"
  by (simp add: LoadDictionary_def loadLine_demo deriveAll_demo)

lemma parseLine_syn:
  "parseLine U ''x 4 p0|y 4 p1'' = [(loadedHeap ! 0)\<lparr>synonyms := []\<rparr>, (loadedHeap ! 1)\<lparr>synonyms := []\<rparr>]"
  "parseLine U ''x z 8 p2'' = [loadedHeap ! 2]"
  by (simp_all add: parseEval splitEval loadedHeap_def)

lemma loadLine_syn:
  "loadLine U (loadLine U ([], NewDictionary) ''x 4 p0|y 4 p1'') ''x z 8 p2''
   = (loadedHeap, synDict)"
  by (simp add: loadLine_def parseLine_syn NewDictionary_def addToken_def synDict_def Let_def
        loadedHeap_def)

lemma LoadDictionary_syn:
  "LoadDictionary U [''x 4 p0|y 4 p1'', ''x z 8 p2''] = Some (Inr (expandedHeap, expandedDict))"
  by (simp add: LoadDictionary_def loadLine_syn deriveAll_example)

text \<open>
  C1 (the code at the failing input): the dictionary file is the one line \<open>a b 5\<close>; the
  dictionary loaded from it holds the one token \<open>a b\<close>, of distance 0. On the atoms \<open>a\<close>,
  \<open>b\<close> the token is found at position 0 and covers both atoms at cost 0, yet the forward
  loop ends with \<open>jumpers[1].minDistance = 64\<close> and the fallback token at position 1: the
  relaxation with the token left \<open>minDistance = 0\<close>, which the next relaxation read as "never
  visited". \<open>Segment\<close> returns the two fallback tokens.
\<close>

theorem forwardLoop_zero_distance_overwritten:
  "LoadDictionary latin1Tables [''a b 5''] = Some (Inr (zeroHeap, zeroDict)) \<and>
   lookupTokens zeroHeap zeroDict [''a'', ''b''] = [Stored 0] \<and>
   toktext (deref zeroHeap (Stored 0)) = [''a'', ''b''] \<and>
   distance (deref zeroHeap (Stored 0)) = 0 \<and>
   forwardLoop zeroHeap zeroDict False [''a'', ''b''] 0
       (replicate 2 \<lparr>minDistance = 0, jtoken = None\<rparr>)
     = Inr [\<lparr>minDistance = 32, jtoken = Some (Synthetic ''a'')\<rparr>,
            \<lparr>minDistance = 64, jtoken = Some (Synthetic ''b'')\<rparr>] \<and>
   Segment latin1Tables zeroHeap zeroDict ''a b''
     = Some (Inr [\<lparr>start = 0, endp = 1, token = Some (Synthetic ''a'')\<rparr>,
                  \<lparr>start = 1, endp = 2, token = Some (Synthetic ''b'')\<rparr>])"
  by (simp add: LoadDictionary_zero)
     (simp add: segEval splitEval zeroHeap_def zeroDict_def numeral_2_eq_2)

text \<open>
  C2 (as stated, refuted): with the dictionary loaded from the two lines \<open>hello 4 p2\<close> and
  \<open>hello world 4 p1\<close>, the input
  \<open>"hello world"\<close> of 11 bytes is returned as the one segment \<open>(0, 10)\<close>; nothing is dropped by
  the stop-word filter, and the spans sum to 10.
\<close>

theorem Segment_coverage_counterexample:
  "LoadDictionary latin1Tables [''hello 4 p2'', ''hello world 4 p1'']
     = Some (Inr (demoHeap, demoDict)) \<and>
   Segment latin1Tables demoHeap demoDict ''hello world''
     = Some (Inr [\<lparr>start = 0, endp = 10, token = Some (Stored 1)\<rparr>]) \<and>
   outputSegmentsOf demoHeap demoDict (splitTextToWords latin1Tables ''hello world'') False
     = Some (Inr [\<lparr>start = 0, endp = 10, token = Some (Stored 1)\<rparr>]) \<and>
   spanSum [\<lparr>start = 0, endp = 10, token = Some (Stored 1)\<rparr>]
     \<noteq> int (length ''hello world'')"
  by (simp add: LoadDictionary_demo)
     (simp add: segEval splitEval demoHeap_def demoDict_def spanSum_def numeral_2_eq_2)

section \<open>The store of a loaded dictionary\<close>

text \<open>
  What \<open>LoadDictionary\<close> keeps true of the store and the dictionary, from the empty
  dictionary through the lines read, the distance assignment and the expansion: \<open>heapInv\<close>,
  and that the sub-segments of every token of the dictionary are \<open>stored\<close>.
\<close>

lemma strings_Trim_head:
  assumes "strings_Trim s c \<noteq> []"
  shows "hd (strings_Trim s c) \<noteq> c"
proof -
  let ?u = "dropWhile (\<lambda>x. x = c) s"
  let ?v = "rev (dropWhile (\<lambda>x. x = c) (rev ?u))"
  have "?v @ rev (takeWhile (\<lambda>x. x = c) (rev ?u))
        = rev (takeWhile (\<lambda>x. x = c) (rev ?u) @ dropWhile (\<lambda>x. x = c) (rev ?u))"
    by (simp only: rev_append)
  also have "\<dots> = rev (rev ?u)" by (simp only: takeWhile_dropWhile_id)
  also have "\<dots> = ?u" by (simp only: rev_rev_ident)
  finally have u: "?u = ?v @ rev (takeWhile (\<lambda>x. x = c) (rev ?u))" by (rule sym)
  from assms have v: "?v \<noteq> []" by (simp add: strings_Trim_def)
  with u have "hd ?u = hd ?v" by (metis hd_append2)
  moreover have "?u \<noteq> []"
  proof
    assume e: "?u = []"
    have "?v = []" unfolding e by simp
    with v show False ..
  qed
  then have "hd ?u \<noteq> c" using hd_dropWhile [of "\<lambda>x. x = c" s] by simp
  ultimately show ?thesis by (simp add: strings_Trim_def)
qed

lemma strings_Split_nonempty: "strings_Split s sep \<noteq> []"
  by (induction s) (auto split: list.splits)

lemma strings_Split_head:
  assumes "s \<noteq> []" and "hd s \<noteq> sep"
  shows "hd (strings_Split s sep) \<noteq> [] \<and> hd (hd (strings_Split s sep)) \<noteq> sep"
  using assms strings_Split_nonempty [of "tl s" sep]
  by (cases s) (auto split: list.splits)

lemma strings_Split_single: "s = [] \<Longrightarrow> length (strings_Split s sep) = 1"
  by simp

lemma strings_Join_head:
  assumes "ws \<noteq> []" and "hd ws \<noteq> []"
  shows "strings_Join ws sep \<noteq> [] \<and> hd (strings_Join ws sep) = hd (hd ws)"
proof (cases ws)
  case Nil
  with assms show ?thesis by simp
next
  case (Cons w ws')
  with assms show ?thesis by (cases ws') auto
qed

lemma strings_Replace_nonspace:
  assumes "s \<noteq> []" and "hd s \<noteq> CHR '' ''"
  shows "\<exists>c \<in> set (strings_Replace ''__VERTICAL_BAR__'' ''|'' s). c \<noteq> CHR '' ''"
  using assms by (cases s) auto

lemma toLower_Nil_iff: "toLower w = [] \<longleftrightarrow> w = []"
  by (simp add: toLower_def)

lemma splitTextToWords_nonempty:
  assumes "\<exists>c \<in> set txt. c \<noteq> CHR '' ''"
  shows "splitTextToWords U txt \<noteq> []"
proof
  assume "splitTextToWords U txt = []"
  then have "concat (splitTextToWords U txt) = []" by simp
  then have "filter (\<lambda>c. c \<noteq> CHR '' '') txt = []"
    by (simp add: splitTextToWords_concat toLower_Nil_iff)
  with assms show False by (auto simp: filter_empty_conv)
qed

lemma parseEntry_Append:
  "parseEntry U txt f p = Append tk \<Longrightarrow>
   toktext tk = splitTextToWords U txt \<and> synonyms tk = [] \<and> segments tk = []"
  by (auto simp: parseEntry_def split: if_splits option.splits)

lemma parsePiece_Append:
  assumes "parsePiece U piece = Append tk"
  shows "toktext tk \<noteq> [] \<and> synonyms tk = [] \<and> segments tk = []"
proof -
  define s where "s = strings_Trim piece CHR '' ''"
  define slices where "slices = strings_Split s CHR '' ''"
  define l where "l = length slices"
  have l2: "2 \<le> l"
    using assms unfolding parsePiece_def s_def [symmetric] slices_def [symmetric] Let_def
      l_def [symmetric] by (auto split: if_splits)
  have sne: "s \<noteq> []"
  proof
    assume "s = []"
    then have "l = 1" by (simp add: l_def slices_def)
    with l2 show False by simp
  qed
  from strings_Trim_head [of piece "CHR '' ''"] sne have "hd s \<noteq> CHR '' ''" by (simp add: s_def)
  from strings_Split_head [OF sne this] have h1: "hd slices \<noteq> []"
    and h2: "hd (hd slices) \<noteq> CHR '' ''" by (simp_all add: slices_def)
  have pre: "strings_Join (take k slices) '' '' \<noteq> []
             \<and> hd (strings_Join (take k slices) '' '') \<noteq> CHR '' ''" if "1 \<le> k" for k
  proof -
    from l2 have "slices \<noteq> []" by (auto simp: l_def)
    with that have "take k slices \<noteq> []" and "hd (take k slices) = hd slices"
      by (cases slices; cases k; simp)+
    with strings_Join_head [of "take k slices" "'' ''"] h1 h2 show ?thesis by simp
  qed
  obtain tx f p where e: "parseEntry U tx f p = Append tk"
    and n: "\<exists>c \<in> set tx. c \<noteq> CHR '' ''"
  proof (cases "matchDigits (slices ! (l - 1))")
    case True
    with assms l2 have "parseEntry U (strings_Join (take (l - 1) slices) '' '')
                          (slices ! (l - 1)) [] = Append tk"
      unfolding parsePiece_def s_def [symmetric] slices_def [symmetric] Let_def l_def [symmetric]
      by (simp split: if_splits)
    moreover from l2 have "1 \<le> l - 1" by simp
    from pre [OF this] have "\<exists>c \<in> set (strings_Join (take (l - 1) slices) '' ''). c \<noteq> CHR '' ''"
      by (metis hd_in_set)
    ultimately show ?thesis by (rule that)
  next
    case False
    with assms have l3: "3 \<le> l"
      unfolding parsePiece_def s_def [symmetric] slices_def [symmetric] Let_def l_def [symmetric]
      by (auto split: if_splits)
    with assms False have "parseEntry U
                   (strings_Replace ''__VERTICAL_BAR__'' ''|''
                      (strings_Join (take (l - 2) slices) '' ''))
                   (slices ! (l - 2)) (slices ! (l - 1)) = Append tk"
      unfolding parsePiece_def s_def [symmetric] slices_def [symmetric] Let_def l_def [symmetric]
      by (simp split: if_splits)
    moreover from l3 have "1 \<le> l - 2" by simp
    from pre [OF this] have "\<exists>c \<in> set (strings_Replace ''__VERTICAL_BAR__'' ''|''
                      (strings_Join (take (l - 2) slices) '' '')). c \<noteq> CHR '' ''"
      by (intro strings_Replace_nonspace) simp_all
    ultimately show ?thesis by (rule that)
  qed
  from parseEntry_Append [OF e] splitTextToWords_nonempty [OF n] show ?thesis by simp
qed

lemma parsePieces_tokens:
  "tk \<in> set (parsePieces U pieces) \<Longrightarrow>
   toktext tk \<noteq> [] \<and> synonyms tk = [] \<and> segments tk = []"
proof (induction pieces)
  case Nil
  then show ?case by simp
next
  case (Cons piece pieces)
  show ?case
  proof (cases "parsePiece U piece")
    case Break
    with Cons.prems show ?thesis by simp
  next
    case Continue
    with Cons show ?thesis by simp
  next
    case (Append a)
    with Cons.prems have "tk = a \<or> tk \<in> set (parsePieces U pieces)" by auto
    with Cons.IH parsePiece_Append [OF Append] show ?thesis by blast
  qed
qed

lemma parseLine_tokens:
  "tk \<in> set (parseLine U line) \<Longrightarrow> toktext tk \<noteq> [] \<and> synonyms tk = [] \<and> segments tk = []"
  unfolding parseLine_def by (rule parsePieces_tokens)

lemma validRef_mono: "validRef n r \<Longrightarrow> n \<le> m \<Longrightarrow> validRef m r"
  by (cases r) simp_all

lemma tokenOk_mono: "tokenOk n tk \<Longrightarrow> n \<le> m \<Longrightarrow> tokenOk m tk"
  by (auto simp: tokenOk_def list_all_iff intro: validRef_mono split: option.splits)

lemma addToken_distinct: "distinct (tokens d) \<Longrightarrow> distinct (tokens (addToken h d r))"
  by (auto simp: addToken_def)

lemma addToken_foldl_tokens:
  "set (tokens (foldl (addToken h) d refs)) \<subseteq> set (tokens d) \<union> set refs
   \<and> (distinct (tokens d) \<longrightarrow> distinct (tokens (foldl (addToken h) d refs)))"
proof (induction refs arbitrary: d)
  case Nil
  show ?case by simp
next
  case (Cons r refs)
  from addToken_tokens [of h d r] have "set (tokens (addToken h d r)) \<subseteq> set (tokens d) \<union> {r}"
    by auto
  with Cons [of "addToken h d r"] addToken_distinct [of d h r] show ?case by auto
qed

lemma loadLine_heapInv:
  assumes "heapInv h d" and "loadLine U (h, d) line = (h', d')"
  shows "heapInv h' d'"
proof -
  define toks where "toks = parseLine U line"
  define refs where "refs = [length h ..< length h + length toks]"
  define new where
    "new = map (\<lambda>i. (toks ! i)\<lparr>synonyms := synonyms (toks ! i)
                                      @ map Stored (take i refs)
                                      @ map Stored (drop (i + 1) refs)\<rparr>) [0 ..< length toks]"
  have "loadLine U (h, d) line = (h @ new, foldl (addToken (h @ new)) d refs)"
    unfolding loadLine_def Let_def toks_def refs_def new_def by simp
  with assms(2) have h': "h' = h @ new" and d': "d' = foldl (addToken h') d refs"
    by auto
  have l: "length h' = length h + length toks" by (simp add: h' new_def)
  have old: "tokenOk (length h') tk" if "tk \<in> set h" for tk
  proof -
    from assms(1) that have "tokenOk (length h) tk" by (simp add: heapInv_def list_all_iff)
    then show ?thesis by (rule tokenOk_mono) (simp add: l)
  qed
  have fresh: "tokenOk (length h') tk" if "tk \<in> set new" for tk
  proof -
    from that obtain i where i: "i < length toks"
      and tk: "tk = (toks ! i)\<lparr>synonyms := synonyms (toks ! i)
                                      @ map Stored (take i refs)
                                      @ map Stored (drop (i + 1) refs)\<rparr>"
      by (auto simp: new_def)
    from i have "toks ! i \<in> set toks" by simp
    from parseLine_tokens [OF this [unfolded toks_def]]
    have p: "toktext (toks ! i) \<noteq> []" "synonyms (toks ! i) = []" "segments (toks ! i) = []"
      by (simp_all add: toks_def)
    have "\<forall>r \<in> set refs. r < length h'" by (simp add: refs_def l)
    then have "\<forall>r \<in> set (take i refs) \<union> set (drop (i + 1) refs). r < length h'"
      by (meson UnE in_set_dropD in_set_takeD)
    with p show ?thesis by (auto simp: tokenOk_def tk list_all_iff)
  qed
  from old fresh have a: "list_all (tokenOk (length h')) h'" by (auto simp: h' list_all_iff)
  from assms(1) have "\<forall>i \<in> set (tokens d). i < length h'" by (auto simp: heapInv_def list_all_iff l)
  moreover have "\<forall>r \<in> set refs. r < length h'" by (simp add: refs_def l)
  ultimately have "\<forall>i \<in> set (tokens d'). i < length h'"
    using addToken_foldl_tokens [of h' d refs] unfolding d' by blast
  moreover from assms(1) have "distinct (tokens d')"
    using addToken_foldl_tokens [of h' d refs] unfolding d' by (simp add: heapInv_def)
  ultimately show ?thesis using a by (simp add: heapInv_def list_all_iff)
qed

lemma loadLine_segments:
  assumes "\<forall>tk \<in> set h. segments tk = []" and "loadLine U (h, d) line = (h', d')"
  shows "\<forall>tk \<in> set h'. segments tk = []"
proof -
  define toks where "toks = parseLine U line"
  have "loadLine U (h, d) line = (h @ map (\<lambda>i. (toks ! i)\<lparr>synonyms := synonyms (toks ! i)
           @ map Stored (take i [length h ..< length h + length toks])
           @ map Stored (drop (i + 1) [length h ..< length h + length toks])\<rparr>)
         [0 ..< length toks], snd (loadLine U (h, d) line))"
    unfolding loadLine_def Let_def toks_def by simp
  with assms(2) have h': "h' = h @ map (\<lambda>i. (toks ! i)\<lparr>synonyms := synonyms (toks ! i)
           @ map Stored (take i [length h ..< length h + length toks])
           @ map Stored (drop (i + 1) [length h ..< length h + length toks])\<rparr>)
         [0 ..< length toks]"
    by simp
  have "segments (toks ! i) = []" if "i < length toks" for i
  proof -
    from that have "toks ! i \<in> set toks" by simp
    from parseLine_tokens [OF this [unfolded toks_def]] show ?thesis by (simp add: toks_def)
  qed
  with assms(1) show ?thesis unfolding h' by auto
qed

lemma loadLines_heapInv:
  "heapInv h d \<Longrightarrow> \<forall>tk \<in> set h. segments tk = [] \<Longrightarrow>
   foldl (loadLine U) (h, d) lines = (h', d') \<Longrightarrow>
   heapInv h' d' \<and> (\<forall>tk \<in> set h'. segments tk = [])"
proof (induction lines arbitrary: h d)
  case Nil
  then show ?case by simp
next
  case (Cons line lines)
  obtain h1 d1 where e: "loadLine U (h, d) line = (h1, d1)" by (cases "loadLine U (h, d) line")
  from loadLine_heapInv [OF Cons.prems(1) e] have i1: "heapInv h1 d1" .
  from loadLine_segments [OF Cons.prems(2) e] have s1: "\<forall>tk \<in> set h1. segments tk = []" .
  from Cons.prems(3) e have "foldl (loadLine U) (h1, d1) lines = (h', d')" by simp
  from Cons.IH [OF i1 s1 this] show ?case .
qed

lemma heapInv_dictOk: "heapInv h d \<Longrightarrow> dictOk h d"
  by (auto simp: heapInv_def dictOk_def tokenOk_def list_all_iff)

lemma heapInv_empty: "heapInv [] NewDictionary"
  by (simp add: heapInv_def NewDictionary_def)

lemma candidates_valid:
  assumes "list_all (\<lambda>i. i < length h) (tokens d)" and "tk \<in> set (candidates h d sm t current)"
  shows "validRef (length h) tk"
proof -
  define toks where
    "toks = lookupTokens h d (slice t current (min (current + maxTokenLength d) (length t)))"
  from assms(2) have "tk \<in> set toks \<or> tk = Synthetic (t ! current)"
    by (auto simp: candidates_def Let_def toks_def split: if_splits)
  then show ?thesis
  proof
    assume "tk \<in> set toks"
    from lookupTokens_set [OF this [unfolded toks_def]] obtain i where
      "tk = Stored i" and "i \<in> set (tokens d)" by blast
    with assms(1) show ?thesis by (auto simp: list_all_iff)
  qed simp
qed

lemma relax1_tokens:
  assumes "\<forall>j \<in> set js. \<forall>r. jtoken j = Some r \<longrightarrow> V r" and "V tk"
  shows "\<forall>j \<in> set (relax1 h current b js tk). \<forall>r. jtoken j = Some r \<longrightarrow> V r"
proof (cases "current + length (toktext (deref h tk)) - 1 < length js")
  case False
  then have "relax1 h current b js tk = js" by (simp add: relax1_def list_update_beyond)
  with assms(1) show ?thesis by simp
next
  case True
  let ?e = "current + length (toktext (deref h tk)) - 1"
  let ?x = "updateJumper h (js ! ?e) b tk"
  from True have "js ! ?e \<in> set js" by simp
  with assms have x: "\<forall>r. jtoken ?x = Some r \<longrightarrow> V r"
    by (auto simp: updateJumper_def Let_def)
  have "set (relax1 h current b js tk) \<subseteq> insert ?x (set js)"
    unfolding relax1_def by (rule set_update_subset_insert)
  with assms(1) x show ?thesis by blast
qed

lemma relax1_foldl_tokens:
  "\<forall>j \<in> set js. \<forall>r. jtoken j = Some r \<longrightarrow> V r \<Longrightarrow> \<forall>tk \<in> set cs. V tk \<Longrightarrow>
   length (foldl (relax1 h current b) js cs) = length js
   \<and> (\<forall>j \<in> set (foldl (relax1 h current b) js cs). \<forall>r. jtoken j = Some r \<longrightarrow> V r)"
proof (induction cs arbitrary: js)
  case Nil
  then show ?case by simp
next
  case (Cons tk cs)
  from Cons.prems(2) have v: "V tk" and vs: "\<forall>tk \<in> set cs. V tk" by simp_all
  from relax1_tokens [OF Cons.prems(1) v]
  have "\<forall>j \<in> set (relax1 h current b js tk). \<forall>r. jtoken j = Some r \<longrightarrow> V r" .
  from Cons.IH [OF this vs] show ?case by (simp add: relax1_def)
qed

lemma forwardLoop_valid:
  assumes "dictOk h d" and "list_all (\<lambda>i. i < length h) (tokens d)"
  shows "current \<le> length t \<Longrightarrow> length js = length t \<Longrightarrow>
         \<forall>j \<in> set js. \<forall>r. jtoken j = Some r \<longrightarrow> validRef (length h) r \<Longrightarrow>
         forwardLoop h d sm t current js = Inr js' \<Longrightarrow>
         \<forall>j \<in> set js'. \<forall>r. jtoken j = Some r \<longrightarrow> validRef (length h) r"
proof (induction "length t - current" arbitrary: current js)
  case 0
  then have "current = length t" by simp
  with 0 show ?case by (simp add: forwardLoop_done)
next
  case (Suc k)
  then have lt: "current < length t" by linarith
  define b where "b = (if current = 0 then 0 else minDistance (js ! (current - 1)))"
  let ?js2 = "foldl (relax1 h current b) js (candidates h d sm t current)"
  have "\<forall>tk \<in> set (candidates h d sm t current). validRef (length h) tk"
    using candidates_valid [OF assms(2)] by blast
  from relax1_foldl_tokens [OF Suc.prems(3) this]
  have l2: "length ?js2 = length t"
    and v2: "\<forall>j \<in> set ?js2. \<forall>r. jtoken j = Some r \<longrightarrow> validRef (length h) r"
    using Suc.prems(2) by simp_all
  have "forwardLoop h d sm t current js = forwardLoop h d sm t (current + 1) ?js2"
    unfolding b_def by (rule forward_iteration [OF assms(1) lt Suc.prems(2)])
  with Suc.prems(4) have f: "forwardLoop h d sm t (current + 1) ?js2 = Inr js'" by simp
  from Suc.hyps(2) have k: "k = length t - (current + 1)" by simp
  from lt have "current + 1 \<le> length t" by simp
  from Suc.hyps(1) [OF k this l2 v2 f] show ?case .
qed

lemma concat_texts:
  "concat (map (\<lambda>tk. concat (toktext (deref h tk))) p)
   = concat (concat (map (\<lambda>tk. toktext (deref h tk)) p))"
  by (induction p) simp_all

lemma assignSpans_offsets:
  "assignSpans h b (map (\<lambda>tk. s0\<lparr>token := Some tk\<rparr>) p) = Inr out \<Longrightarrow>
   \<forall>s \<in> set out. \<exists>tk. token s = Some tk \<and> b \<le> start s \<and> start s \<le> endp s
      \<and> endp s \<le> b + int (length (concat (map (\<lambda>tk. concat (toktext (deref h tk))) p)))
      \<and> slice (concat (map (\<lambda>tk. concat (toktext (deref h tk))) p))
           (nat (start s - b)) (nat (endp s - b)) = concat (toktext (deref h tk))"
proof (induction p arbitrary: b out)
  case Nil
  then show ?case by simp
next
  case (Cons tk p)
  let ?c = "concat (toktext (deref h tk))"
  let ?B = "concat (map (\<lambda>tk. concat (toktext (deref h tk))) p)"
  let ?b = "b + int (length ?c)"
  let ?seg = "s0\<lparr>token := Some tk, start := b, endp := ?b\<rparr>"
  from Cons.prems obtain out' where
    a: "assignSpans h ?b (map (\<lambda>tk. s0\<lparr>token := Some tk\<rparr>) p) = Inr out'"
    and o: "out = ?seg # out'"
    by (auto simp: Let_def textSliceByteLength_concat split: sum.splits)
  note ih = Cons.IH [OF a]
  show ?case
  proof
    fix s assume "s \<in> set out"
    with o have "s = ?seg \<or> s \<in> set out'" by simp
    then show "\<exists>tk'. token s = Some tk' \<and> b \<le> start s \<and> start s \<le> endp s
      \<and> endp s \<le> b + int (length (concat (map (\<lambda>tk. concat (toktext (deref h tk))) (tk # p))))
      \<and> slice (concat (map (\<lambda>tk. concat (toktext (deref h tk))) (tk # p)))
           (nat (start s - b)) (nat (endp s - b)) = concat (toktext (deref h tk'))"
    proof
      assume "s = ?seg"
      then show ?thesis by (simp add: slice_def)
    next
      assume "s \<in> set out'"
      with ih obtain tk' where t: "token s = Some tk'" and b1: "?b \<le> start s"
        and b2: "start s \<le> endp s" and b3: "endp s \<le> ?b + int (length ?B)"
        and sl: "slice ?B (nat (start s - ?b)) (nat (endp s - ?b)) = concat (toktext (deref h tk'))"
        by blast
      from b1 have n1: "nat (start s - b) = length ?c + nat (start s - ?b)" by linarith
      from b1 b2 have n2: "nat (endp s - b) - nat (start s - b) = nat (endp s - ?b) - nat (start s - ?b)"
        by linarith
      have e1: "drop (nat (start s - b)) (?c @ ?B) = drop (nat (start s - ?b)) ?B"
        by (simp add: n1)
      have "slice (?c @ ?B) (nat (start s - b)) (nat (endp s - b))
            = slice ?B (nat (start s - ?b)) (nat (endp s - ?b))"
        unfolding slice_def e1 n2 ..
      with t b1 b2 b3 sl show ?thesis by simp
    qed
  qed
qed

lemma outputSegmentsOf_spans:
  assumes "dictOk h d" and "sm \<longrightarrow> length t \<noteq> 1"
  shows "\<exists>js out. forwardLoop h d sm t 0
                      (replicate (length t) \<lparr>minDistance = 0, jtoken = None\<rparr>) = Inr js
           \<and> jumpersOk h t sm (length t) js
           \<and> outputSegmentsOf h d t sm = Some (Inr out)
           \<and> assignSpans h 0 (map (\<lambda>tk. \<lparr>start = 0, endp = 0, token = Some tk\<rparr>)
                                (backPath h js (int (length t) - 1))) = Inr out"
proof -
  from forwardLoop_ok [OF assms jumpersOk_initial] obtain js where
    f: "forwardLoop h d sm t 0 (replicate (length t) \<lparr>minDistance = 0, jtoken = None\<rparr>) = Inr js"
    and ok: "jumpersOk h t sm (length t) js" by blast
  from ok have fl: "filled h js" by (rule jumpersOk_filled)
  from ok have l: "length js = length t" by (simp add: jumpersOk_def)
  let ?i = "int (length t) - 1"
  let ?p = "backPath h js ?i"
  let ?s0 = "\<lparr>start = 0, endp = 0, token = None\<rparr>"
  from l have il: "?i < int (length js)" by simp
  have c: "countLoop h js ?i 0 = Some (Inr (length ?p))"
    using countLoop_total [OF fl il, of 0] by simp
  have "fillLoop h js ?i (length ?p) (replicate (length ?p) ?s0 @ [])
        = Some (Inr (replicate (length ?p - length ?p) ?s0
                     @ map (\<lambda>tk. ?s0\<lparr>token := Some tk\<rparr>) ?p @ []))"
    by (rule fillLoop_total [OF fl il]) simp
  then have g: "fillLoop h js ?i (length ?p) (replicate (length ?p) ?s0)
        = Some (Inr (map (\<lambda>tk. \<lparr>start = 0, endp = 0, token = Some tk\<rparr>) ?p))" by simp
  from assignSpans_path [of h 0 ?s0 ?p] obtain out where
    "assignSpans h 0 (map (\<lambda>tk. ?s0\<lparr>token := Some tk\<rparr>) ?p) = Inr out" by blast
  then have a: "assignSpans h 0 (map (\<lambda>tk. \<lparr>start = 0, endp = 0, token = Some tk\<rparr>) ?p) = Inr out"
    by simp
  have "outputSegmentsOf h d t sm = Some (Inr out)"
    by (simp add: outputSegmentsOf_def f c g a)
  with f ok a show ?thesis by blast
qed

lemma segmentWords_result:
  assumes "dictOk h d" and "list_all (\<lambda>i. i < length h) (tokens d)"
  shows "\<exists>segs. segmentWords h d t sm = Some (Inr segs)
           \<and> (\<forall>s \<in> set segs. subSpanOk h t s
                  \<and> (\<exists>tk. token s = Some tk \<and> validRef (length h) tk))"
proof (cases "sm \<and> length t = 1")
  case True
  then show ?thesis by (simp add: segmentWords_def)
next
  case False
  then have sm: "sm \<longrightarrow> length t \<noteq> 1" by blast
  let ?s0 = "\<lparr>start = 0, endp = 0, token = None\<rparr>"
  let ?init = "replicate (length t) \<lparr>minDistance = 0, jtoken = None\<rparr>"
  from outputSegmentsOf_spans [OF assms(1) sm] obtain js out where
    f: "forwardLoop h d sm t 0 ?init = Inr js"
    and ok: "jumpersOk h t sm (length t) js"
    and o: "outputSegmentsOf h d t sm = Some (Inr out)"
    and a: "assignSpans h 0 (map (\<lambda>tk. \<lparr>start = 0, endp = 0, token = Some tk\<rparr>)
                                (backPath h js (int (length t) - 1))) = Inr out"
    by blast
  let ?p = "backPath h js (int (length t) - 1)"
  from a have a2: "assignSpans h 0 (map (\<lambda>tk. ?s0\<lparr>token := Some tk\<rparr>) ?p) = Inr out" by simp
  from ok have fl: "filled h js" by (rule jumpersOk_filled)
  from ok have l: "length js = length t" by (simp add: jumpersOk_def)
  from l have il: "int (length t) - 1 < int (length js)" by simp
  from assignSpans_path [of h 0 ?s0 ?p] a2 have m: "map token out = map Some ?p" by auto
  have "concat (map (\<lambda>tk. toktext (deref h tk)) ?p) = take (nat (int (length t) - 1 + 1)) t"
    by (rule backPath_concat [OF ok]) simp
  then have B: "concat (map (\<lambda>tk. concat (toktext (deref h tk))) ?p) = concat t"
    by (simp add: concat_texts)
  have v: "\<forall>j \<in> set js. \<forall>r. jtoken j = Some r \<longrightarrow> validRef (length h) r"
    by (rule forwardLoop_valid [OF assms, of 0 t ?init sm js]) (simp_all add: f)
  have each: "subSpanOk h t s \<and> (\<exists>tk. token s = Some tk \<and> validRef (length h) tk)"
    if "s \<in> set out" for s
  proof -
    from assignSpans_offsets [OF a2] that obtain tk where t: "token s = Some tk"
      and b1: "0 \<le> start s" and b2: "start s \<le> endp s"
      and b3: "endp s \<le> 0 + int (length (concat (map (\<lambda>tk. concat (toktext (deref h tk))) ?p)))"
      and sl: "slice (concat (map (\<lambda>tk. concat (toktext (deref h tk))) ?p))
                 (nat (start s - 0)) (nat (endp s - 0)) = concat (toktext (deref h tk))"
      by blast
    from t b1 b2 b3 sl have "subSpanOk h t s"
      unfolding B by (simp add: subSpanOk_def textSliceByteLength_concat)
    moreover from that have "token s \<in> set (map token out)" by simp
    with m t have "tk \<in> set ?p" by auto
    from backPath_members [OF fl il this] obtain i where "i < length js"
      and "jtoken (js ! i) = Some tk" by blast
    with v have "validRef (length h) tk" by (metis nth_mem)
    ultimately show ?thesis using t by blast
  qed
  then have "list_all (\<lambda>s. token s \<noteq> None) out" by (auto simp: list_all_iff)
  then have "filterStop h out = Inr (filter (\<lambda>s. \<not> isStop h s) out)" by (rule filterStop_filter)
  with False o have "segmentWords h d t sm = Some (Inr (filter (\<lambda>s. \<not> isStop h s) out))"
    by (auto simp: segmentWords_def)
  with each show ?thesis by auto
qed

lemma insertSynonyms_struct:
  "insertSynonyms src done todo (h, d) = Some (Inr (h', d')) \<Longrightarrow> distinct todo \<Longrightarrow>
   length h' = length h \<and> (\<forall>k. toktext (h' ! k) = toktext (h ! k))
   \<and> set (tokens d) \<subseteq> set (tokens d')
   \<and> (\<forall>r \<in> set todo. r < length h \<longrightarrow> synonyms (h ! r) = [] \<longrightarrow>
          synonyms (h' ! r) \<noteq> [] \<and> hd (synonyms (h' ! r)) = Stored src)"
proof (induction todo arbitrary: "done" h d)
  case Nil
  then show ?case by simp
next
  case (Cons r todo)
  from Cons.prems(1) obtain segs where
    sw: "segmentWords h d (toktext (h ! r)) True = Some (Inr segs)"
    by (auto split: option.splits sum.splits)
  define h1 where "h1 = h[r := (h ! r)\<lparr>segments := segments (h ! r) @ segs,
                                   synonyms := synonyms (h ! r) @ [Stored src]
                                                @ map Stored done @ map Stored todo\<rparr>]"
  from Cons.prems(1) sw have
    ins: "insertSynonyms src (done @ [r]) todo (h1, addToken h1 d r) = Some (Inr (h', d'))"
    by (simp add: h1_def Let_def)
  from Cons.prems(2) have dt: "distinct todo" and rn: "r \<notin> set todo" by simp_all
  from Cons.IH [OF ins dt] have l: "length h' = length h1"
    and tx: "\<forall>k. toktext (h' ! k) = toktext (h1 ! k)"
    and tk: "set (tokens (addToken h1 d r)) \<subseteq> set (tokens d')"
    and sy: "\<forall>r' \<in> set todo. r' < length h1 \<longrightarrow> synonyms (h1 ! r') = [] \<longrightarrow>
               synonyms (h' ! r') \<noteq> [] \<and> hd (synonyms (h' ! r')) = Stored src" by blast+
  have l1: "length h1 = length h" by (simp add: h1_def)
  have t1: "toktext (h1 ! k) = toktext (h ! k)" for k
  proof (cases "k = r \<and> r < length h")
    case True
    then show ?thesis by (simp add: h1_def)
  next
    case False
    then have "h1 ! k = h ! k" by (cases "r < length h") (auto simp: h1_def list_update_beyond)
    then show ?thesis by simp
  qed
  have a: "\<forall>k. toktext (h' ! k) = toktext (h ! k)" using tx t1 by simp
  from addToken_tokens [of h1 d r] tk have b: "set (tokens d) \<subseteq> set (tokens d')" by auto
  have c: "synonyms (h' ! r') \<noteq> [] \<and> hd (synonyms (h' ! r')) = Stored src"
    if "r' \<in> set (r # todo)" "r' < length h" "synonyms (h ! r') = []" for r'
  proof (cases "r' = r")
    case True
    from insertSynonyms_untouched [OF ins rn] have "h' ! r = h1 ! r" .
    with that(2,3) True show ?thesis by (simp add: h1_def)
  next
    case False
    with that(1) have m: "r' \<in> set todo" by simp
    from False have "h1 ! r' = h ! r'" by (simp add: h1_def)
    with sy m that(2,3) l1 show ?thesis by simp
  qed
  from a b c l l1 show ?case by simp
qed

lemma cartesianOf_plain:
  "\<forall>a \<in> set (cartesianOf h tk syns). synonyms a = [] \<and> segments a = []"
  by (auto simp: cartesianOf_def productToken_def split: if_splits)

lemma expandSynonyms_plain:
  "expandSynonyms h segs syns hs = Inr (syns', hs') \<Longrightarrow>
   \<forall>a \<in> set syns. synonyms a = [] \<and> segments a = [] \<Longrightarrow>
   \<forall>a \<in> set syns'. synonyms a = [] \<and> segments a = []"
proof (induction segs arbitrary: syns hs)
  case Nil
  then show ?case by simp
next
  case (Cons s segs)
  show ?case
  proof (cases "token s")
    case None
    with Cons.prems(1) have "syns = []"
      and "expandSynonyms h segs [] hs = Inr (syns', hs')" by (auto split: if_splits)
    from Cons.IH [OF this(2)] show ?thesis by simp
  next
    case (Some tk)
    with Cons.prems(1) have "expandSynonyms h segs (cartesianOf h tk syns)
         (hs \<or> (syns \<noteq> [] \<and> length (synonyms (deref h tk)) > 0)) = Inr (syns', hs')" by simp
    from Cons.IH [OF this cartesianOf_plain] show ?thesis .
  qed
qed

lemma expandSynonyms_has:
  "expandSynonyms h segs syns hs = Inr (syns', hs') \<Longrightarrow> hs' \<Longrightarrow> \<not> hs \<Longrightarrow> segs \<noteq> []"
  by (cases segs) auto

lemma expandToken_struct:
  assumes "expandToken i (h, d) = Some (Inr (h', d'))" and "i < length h"
  shows "length h \<le> length h'"
    and "\<forall>k < length h. k \<noteq> i \<longrightarrow> h' ! k = h ! k"
    and "\<forall>k < length h. toktext (h' ! k) = toktext (h ! k)"
    and "set (tokens d) \<subseteq> set (tokens d')"
    and "\<forall>r \<in> set (tokens d'). r \<notin> set (tokens d) \<longrightarrow>
           (\<exists>segs syns.
               segmentWords h d (toktext (h ! i)) True = Some (Inr segs)
             \<and> expandSynonyms (h[i := (h ! i)\<lparr>segments := segments (h ! i) @ segs\<rparr>])
                  (segments (h ! i) @ segs) [seedToken (h ! i)] False = Inr (syns, True)
             \<and> length h \<le> r \<and> r < length h + length syns \<and> r < length h'
             \<and> toktext (h' ! r) = toktext (syns ! (r - length h))
             \<and> synonyms (h' ! r) \<noteq> [] \<and> hd (synonyms (h' ! r)) = Stored i)"
proof -
  from assms(1) obtain segs where
    sw: "segmentWords h d (toktext (h ! i)) True = Some (Inr segs)"
    by (auto simp: expandToken_def split: option.splits sum.splits)
  define h1 where "h1 = h[i := (h ! i)\<lparr>segments := segments (h ! i) @ segs\<rparr>]"
  have l1: "length h1 = length h" by (simp add: h1_def)
  have sg: "segments (h1 ! i) = segments (h ! i) @ segs" using assms(2) by (simp add: h1_def)
  have sd: "seedToken (h1 ! i) = seedToken (h ! i)" using assms(2)
    by (simp add: h1_def seedToken_def)
  have n1: "h1 ! k = h ! k" if "k \<noteq> i" for k using that by (simp add: h1_def)
  have t1: "toktext (h1 ! k) = toktext (h ! k)" for k
    using assms(2) by (cases "k = i") (simp_all add: h1_def)
  from assms(1) sw obtain syns has where
    es: "expandSynonyms h1 (segments (h1 ! i)) [seedToken (h1 ! i)] False = Inr (syns, has)"
    by (auto simp: expandToken_def h1_def Let_def split: sum.splits)
  have "length h \<le> length h' \<and> (\<forall>k < length h. k \<noteq> i \<longrightarrow> h' ! k = h ! k)
      \<and> (\<forall>k < length h. toktext (h' ! k) = toktext (h ! k))
      \<and> set (tokens d) \<subseteq> set (tokens d')
      \<and> (\<forall>r \<in> set (tokens d'). r \<notin> set (tokens d) \<longrightarrow>
           (\<exists>segs syns.
               segmentWords h d (toktext (h ! i)) True = Some (Inr segs)
             \<and> expandSynonyms (h[i := (h ! i)\<lparr>segments := segments (h ! i) @ segs\<rparr>])
                  (segments (h ! i) @ segs) [seedToken (h ! i)] False = Inr (syns, True)
             \<and> length h \<le> r \<and> r < length h + length syns \<and> r < length h'
             \<and> toktext (h' ! r) = toktext (syns ! (r - length h))
             \<and> synonyms (h' ! r) \<noteq> [] \<and> hd (synonyms (h' ! r)) = Stored i))"
  proof (cases has)
    case False
    with assms(1) sw es have "h' = h1" "d' = d"
      by (simp_all add: expandToken_def h1_def Let_def)
    with l1 n1 t1 show ?thesis by simp
  next
    case True
    define refs where "refs = [length h1 ..< length h1 + length syns]"
    define h2 where "h2 = (h1 @ syns)[i := (h1 ! i)\<lparr>synonyms := map Stored refs\<rparr>]"
    from assms(1) sw es True have
      ins: "insertSynonyms i [] refs (h2, d) = Some (Inr (h', d'))"
      by (simp add: expandToken_def h1_def [symmetric] refs_def h2_def Let_def)
    have dr: "distinct refs" by (simp add: refs_def)
    from insertSynonyms_struct [OF ins dr] have l: "length h' = length h2"
      and tx: "\<forall>k. toktext (h' ! k) = toktext (h2 ! k)"
      and tk: "set (tokens d) \<subseteq> set (tokens d')"
      and sy: "\<forall>r \<in> set refs. r < length h2 \<longrightarrow> synonyms (h2 ! r) = [] \<longrightarrow>
                 synonyms (h' ! r) \<noteq> [] \<and> hd (synonyms (h' ! r)) = Stored i" by blast+
    from insertSynonyms_frame [OF ins]
    have t: "set (tokens d') \<subseteq> set (tokens d) \<union> set refs" by blast
    have l2: "length h2 = length h + length syns" by (simp add: h2_def l1)
    have n2: "h2 ! k = h ! k" if "k < length h" "k \<noteq> i" for k
      using that by (simp add: h2_def nth_append l1 n1)
    have t2: "toktext (h2 ! k) = toktext (h ! k)" if "k < length h" for k
    proof (cases "k = i")
      case True
      with that have "h2 ! k = (h1 ! i)\<lparr>synonyms := map Stored refs\<rparr>"
        by (simp add: h2_def l1)
      with True t1 [of i] show ?thesis by simp
    next
      case False
      with n2 [OF that] show ?thesis by simp
    qed
    have p2: "h2 ! r = syns ! (r - length h)" if "length h \<le> r" "r < length h + length syns" for r
    proof -
      from that assms(2) have "r \<noteq> i" by simp
      with that show ?thesis by (simp add: h2_def nth_append l1)
    qed
    from es have pl: "\<forall>a \<in> set syns. synonyms a = [] \<and> segments a = []"
      by (rule expandSynonyms_plain) (simp add: seedToken_def)
    have a: "h' ! k = h ! k" if "k < length h" "k \<noteq> i" for k
    proof -
      from that(1) have "k \<notin> set refs" by (simp add: refs_def l1)
      from insertSynonyms_untouched [OF ins this] n2 [OF that] show ?thesis by simp
    qed
    have b: "toktext (h' ! k) = toktext (h ! k)" if "k < length h" for k
      using tx t2 [OF that] by simp
    have c: "\<exists>segs syns.
               segmentWords h d (toktext (h ! i)) True = Some (Inr segs)
             \<and> expandSynonyms (h[i := (h ! i)\<lparr>segments := segments (h ! i) @ segs\<rparr>])
                  (segments (h ! i) @ segs) [seedToken (h ! i)] False = Inr (syns, True)
             \<and> length h \<le> r \<and> r < length h + length syns \<and> r < length h'
             \<and> toktext (h' ! r) = toktext (syns ! (r - length h))
             \<and> synonyms (h' ! r) \<noteq> [] \<and> hd (synonyms (h' ! r)) = Stored i"
      if "r \<in> set (tokens d')" "r \<notin> set (tokens d)" for r
    proof -
      from that t have m: "r \<in> set refs" by auto
      then have r: "length h \<le> r" "r < length h + length syns" by (simp_all add: refs_def l1)
      from p2 [OF r] have e: "h2 ! r = syns ! (r - length h)" .
      from r have "syns ! (r - length h) \<in> set syns" by simp
      with pl e have "synonyms (h2 ! r) = []" by simp
      with sy m r l2 have "synonyms (h' ! r) \<noteq> [] \<and> hd (synonyms (h' ! r)) = Stored i" by simp
      moreover from tx e have "toktext (h' ! r) = toktext (syns ! (r - length h))" by simp
      moreover from es True have "expandSynonyms (h[i := (h ! i)\<lparr>segments := segments (h ! i) @ segs\<rparr>])
                  (segments (h ! i) @ segs) [seedToken (h ! i)] False = Inr (syns, True)"
        unfolding sg sd by (simp only: h1_def)
      ultimately show ?thesis using sw r l l2 by auto
    qed
    from a b c l l2 tk show ?thesis by simp
  qed
  then show "length h \<le> length h'"
    and "\<forall>k < length h. k \<noteq> i \<longrightarrow> h' ! k = h ! k"
    and "\<forall>k < length h. toktext (h' ! k) = toktext (h ! k)"
    and "set (tokens d) \<subseteq> set (tokens d')"
    and "\<forall>r \<in> set (tokens d'). r \<notin> set (tokens d) \<longrightarrow>
           (\<exists>segs syns.
               segmentWords h d (toktext (h ! i)) True = Some (Inr segs)
             \<and> expandSynonyms (h[i := (h ! i)\<lparr>segments := segments (h ! i) @ segs\<rparr>])
                  (segments (h ! i) @ segs) [seedToken (h ! i)] False = Inr (syns, True)
             \<and> length h \<le> r \<and> r < length h + length syns \<and> r < length h'
             \<and> toktext (h' ! r) = toktext (syns ! (r - length h))
             \<and> synonyms (h' ! r) \<noteq> [] \<and> hd (synonyms (h' ! r)) = Stored i)"
    by blast+
qed

lemma expandAll_untouched:
  "expandAll is (h, d) = Some (Inr (h', d')) \<Longrightarrow> \<forall>i \<in> set is. i < length h \<Longrightarrow>
   length h \<le> length h' \<and> (\<forall>k < length h. k \<notin> set is \<longrightarrow> h' ! k = h ! k)
   \<and> (\<forall>k < length h. toktext (h' ! k) = toktext (h ! k))
   \<and> set (tokens d) \<subseteq> set (tokens d')"
proof (induction "is" arbitrary: h d)
  case Nil
  then show ?case by simp
next
  case (Cons i rest)
  from Cons.prems(1) obtain h1 d1 where
    e1: "expandToken i (h, d) = Some (Inr (h1, d1))"
    and e2: "expandAll rest (h1, d1) = Some (Inr (h', d'))"
    by (auto split: option.splits sum.splits)
  from Cons.prems(2) have il: "i < length h" by simp
  note s = expandToken_struct [OF e1 il]
  from Cons.prems(2) s(1) have "\<forall>i \<in> set rest. i < length h1" by auto
  from Cons.IH [OF e2 this] have l: "length h1 \<le> length h'"
    and u: "\<forall>k < length h1. k \<notin> set rest \<longrightarrow> h' ! k = h1 ! k"
    and t: "\<forall>k < length h1. toktext (h' ! k) = toktext (h1 ! k)"
    and k: "set (tokens d1) \<subseteq> set (tokens d')" by blast+
  have "h' ! k = h ! k" if "k < length h" "k \<notin> set (i # rest)" for k
    using that u s(1,2) by simp
  moreover have "toktext (h' ! k) = toktext (h ! k)" if "k < length h" for k
    using that t s(1,3) by simp
  ultimately show ?case using l s(1,4) k by auto
qed

lemma expandAll_source:
  "expandAll is (h, d) = Some (Inr (h', d')) \<Longrightarrow> \<forall>i \<in> set is. i < length h \<Longrightarrow>
   r \<in> set (tokens d') \<Longrightarrow> r \<notin> set (tokens d) \<Longrightarrow>
   \<exists>k < length is. \<exists>h0 d0 segs syns.
       expandAll (take k is) (h, d) = Some (Inr (h0, d0))
     \<and> segmentWords h0 d0 (toktext (h0 ! (is ! k))) True = Some (Inr segs)
     \<and> expandSynonyms (h0[is ! k := (h0 ! (is ! k))\<lparr>segments := segments (h0 ! (is ! k)) @ segs\<rparr>])
          (segments (h0 ! (is ! k)) @ segs) [seedToken (h0 ! (is ! k))] False = Inr (syns, True)
     \<and> length h0 \<le> r \<and> r < length h0 + length syns
     \<and> toktext (h' ! r) = toktext (syns ! (r - length h0))
     \<and> synonyms (h' ! r) \<noteq> [] \<and> hd (synonyms (h' ! r)) = Stored (is ! k)
     \<and> sameFields (h' ! r) (h ! (is ! k))"
proof (induction "is" arbitrary: h d)
  case Nil
  then show ?case by simp
next
  case (Cons i rest)
  from Cons.prems(1) obtain h1 d1 where
    e1: "expandToken i (h, d) = Some (Inr (h1, d1))"
    and e2: "expandAll rest (h1, d1) = Some (Inr (h', d'))"
    by (auto split: option.splits sum.splits)
  from Cons.prems(2) have il: "i < length h" by simp
  note s = expandToken_struct [OF e1 il]
  from Cons.prems(2) s(1) have v1: "\<forall>i \<in> set rest. i < length h1" by auto
  show ?case
  proof (cases "r \<in> set (tokens d1)")
    case True
    with s(5) Cons.prems(4) obtain segs syns where
      sw: "segmentWords h d (toktext (h ! i)) True = Some (Inr segs)"
      and es: "expandSynonyms (h[i := (h ! i)\<lparr>segments := segments (h ! i) @ segs\<rparr>])
                  (segments (h ! i) @ segs) [seedToken (h ! i)] False = Inr (syns, True)"
      and r: "length h \<le> r" "r < length h + length syns" "r < length h1"
      and tx: "toktext (h1 ! r) = toktext (syns ! (r - length h))"
      and sy: "synonyms (h1 ! r) \<noteq> []" "hd (synonyms (h1 ! r)) = Stored i" by blast
    from Cons.prems(2) r(1) have "r \<notin> set rest" by auto
    with expandAll_untouched [OF e2 v1] r(3) have e: "h' ! r = h1 ! r" by blast
    from expandToken_frame [OF e1 il] True Cons.prems(4)
    have "sameFields (h1 ! r) (h ! i)" by blast
    with e sw es r tx sy have
      "expandAll (take 0 (i # rest)) (h, d) = Some (Inr (h, d))
     \<and> segmentWords h d (toktext (h ! ((i # rest) ! 0))) True = Some (Inr segs)
     \<and> expandSynonyms (h[(i # rest) ! 0 := (h ! ((i # rest) ! 0))
               \<lparr>segments := segments (h ! ((i # rest) ! 0)) @ segs\<rparr>])
          (segments (h ! ((i # rest) ! 0)) @ segs) [seedToken (h ! ((i # rest) ! 0))] False
         = Inr (syns, True)
     \<and> length h \<le> r \<and> r < length h + length syns
     \<and> toktext (h' ! r) = toktext (syns ! (r - length h))
     \<and> synonyms (h' ! r) \<noteq> [] \<and> hd (synonyms (h' ! r)) = Stored ((i # rest) ! 0)
     \<and> sameFields (h' ! r) (h ! ((i # rest) ! 0))" by simp
    then show ?thesis by (intro exI [of _ 0]) blast
  next
    case False
    from Cons.IH [OF e2 v1 Cons.prems(3) False] obtain k h0 d0 segs syns where
      k: "k < length rest"
      and p: "expandAll (take k rest) (h1, d1) = Some (Inr (h0, d0))"
      and sw: "segmentWords h0 d0 (toktext (h0 ! (rest ! k))) True = Some (Inr segs)"
      and es: "expandSynonyms (h0[rest ! k := (h0 ! (rest ! k))
                    \<lparr>segments := segments (h0 ! (rest ! k)) @ segs\<rparr>])
                 (segments (h0 ! (rest ! k)) @ segs) [seedToken (h0 ! (rest ! k))] False
               = Inr (syns, True)"
      and r: "length h0 \<le> r" "r < length h0 + length syns"
      and tx: "toktext (h' ! r) = toktext (syns ! (r - length h0))"
      and sy: "synonyms (h' ! r) \<noteq> []" "hd (synonyms (h' ! r)) = Stored (rest ! k)"
      and sf: "sameFields (h' ! r) (h1 ! (rest ! k))" by blast
    from k Cons.prems(2) have "rest ! k < length h" by simp
    with expandToken_frame [OF e1 il] have "sameFields (h1 ! (rest ! k)) (h ! (rest ! k))" by blast
    with sf have sf': "sameFields (h' ! r) (h ! (rest ! k))" using sameFields_trans by blast
    from p e1 have p': "expandAll (take (Suc k) (i # rest)) (h, d) = Some (Inr (h0, d0))" by simp
    from k have k': "Suc k < length (i # rest)" by simp
    from p' sw es r tx sy sf' have
      "expandAll (take (Suc k) (i # rest)) (h, d) = Some (Inr (h0, d0))
     \<and> segmentWords h0 d0 (toktext (h0 ! ((i # rest) ! Suc k))) True = Some (Inr segs)
     \<and> expandSynonyms (h0[(i # rest) ! Suc k := (h0 ! ((i # rest) ! Suc k))
               \<lparr>segments := segments (h0 ! ((i # rest) ! Suc k)) @ segs\<rparr>])
          (segments (h0 ! ((i # rest) ! Suc k)) @ segs) [seedToken (h0 ! ((i # rest) ! Suc k))]
          False = Inr (syns, True)
     \<and> length h0 \<le> r \<and> r < length h0 + length syns
     \<and> toktext (h' ! r) = toktext (syns ! (r - length h0))
     \<and> synonyms (h' ! r) \<noteq> [] \<and> hd (synonyms (h' ! r)) = Stored ((i # rest) ! Suc k)
     \<and> sameFields (h' ! r) (h ! ((i # rest) ! Suc k))" by simp
    with k' show ?thesis by blast
  qed
qed

lemma earlierI:
  "length h0 \<le> length h \<Longrightarrow> (\<And>k. k < length h0 \<Longrightarrow> toktext (h0 ! k) = toktext (h ! k)) \<Longrightarrow>
   set (tokens d0) \<subseteq> set (tokens d) \<Longrightarrow> earlier h0 d0 h d"
  by (auto simp: earlier_def list_all_iff)

lemma earlierD:
  assumes "earlier h0 d0 h d"
  shows "length h0 \<le> length h" and "k < length h0 \<Longrightarrow> toktext (h0 ! k) = toktext (h ! k)"
    and "set (tokens d0) \<subseteq> set (tokens d)"
  using assms by (auto simp: earlier_def list_all_iff)

lemma earlier_refl: "earlier h d h d"
  by (rule earlierI) simp_all

lemma earlier_trans:
  assumes "earlier a da b db" and "earlier b db c dc"
  shows "earlier a da c dc"
proof (rule earlierI)
  from earlierD(1) [OF assms(1)] earlierD(1) [OF assms(2)] show "length a \<le> length c" by simp
next
  fix k assume k: "k < length a"
  with earlierD(1) [OF assms(1)] have "k < length b" by simp
  from earlierD(2) [OF assms(1) k] earlierD(2) [OF assms(2) this]
  show "toktext (a ! k) = toktext (c ! k)" by simp
next
  from earlierD(3) [OF assms(1)] earlierD(3) [OF assms(2)]
  show "set (tokens da) \<subseteq> set (tokens dc)" by blast
qed

lemma stored_mono:
  assumes "stored h d k" and "earlier h d h' d'"
    and "toktext (h' ! k) = toktext (h ! k)" and "segments (h' ! k) = segments (h ! k)"
  shows "stored h' d' k"
proof -
  from assms(1) obtain h0 d0 where "heapInv h0 d0" and "earlier h0 d0 h d"
    and "segmentWords h0 d0 (toktext (h ! k)) True = Some (Inr (segments (h ! k)))"
    unfolding stored_def by blast
  with earlier_trans [OF this(2) assms(2)] assms(3,4) show ?thesis
    unfolding stored_def by auto
qed

lemma heapInvD:
  assumes "heapInv h d"
  shows "k < length h \<Longrightarrow> tokenOk (length h) (h ! k)"
    and "i \<in> set (tokens d) \<Longrightarrow> i < length h" and "distinct (tokens d)"
  using assms by (auto simp: heapInv_def list_all_iff)

lemma heapInvI:
  "(\<And>k. k < length h \<Longrightarrow> tokenOk (length h) (h ! k)) \<Longrightarrow>
   (\<And>i. i \<in> set (tokens d) \<Longrightarrow> i < length h) \<Longrightarrow> distinct (tokens d) \<Longrightarrow> heapInv h d"
  by (auto simp: heapInv_def list_all_iff in_set_conv_nth)

lemma deref_ok:
  assumes "\<And>k. k < length h \<Longrightarrow> tokenOk (length h) (h ! k)" and "validRef (length h) r"
  shows "toktext (deref h r) \<noteq> []
       \<and> (\<forall>b \<in> set (synonyms (deref h r)). toktext (deref h b) \<noteq> [])"
proof -
  have t: "toktext (deref h b) \<noteq> []" if "validRef (length h) b" for b
  proof (cases b)
    case (Stored j)
    with that assms(1) [of j] show ?thesis by (simp add: tokenOk_def)
  next
    case (Synthetic a)
    then show ?thesis by (simp add: fallbackToken_def)
  qed
  have "\<forall>b \<in> set (synonyms (deref h r)). validRef (length h) b"
  proof (cases r)
    case (Stored j)
    with assms(2) assms(1) [of j] show ?thesis by (simp add: tokenOk_def list_all_iff)
  next
    case (Synthetic a)
    then show ?thesis by (simp add: fallbackToken_def)
  qed
  with t [OF assms(2)] t show ?thesis by blast
qed

lemma cartesianOf_texts:
  assumes "toktext (deref h tk) \<noteq> []"
    and "\<forall>b \<in> set (synonyms (deref h tk)). toktext (deref h b) \<noteq> []"
  shows "\<forall>a \<in> set (cartesianOf h tk syns). toktext a \<noteq> []"
  using assms by (auto simp: cartesianOf_def productToken_def split: if_splits)

lemma expandSynonyms_texts:
  "expandSynonyms h segs syns hs = Inr (syns', hs') \<Longrightarrow>
   \<forall>s \<in> set segs. \<exists>r. token s = Some r \<and> toktext (deref h r) \<noteq> []
        \<and> (\<forall>b \<in> set (synonyms (deref h r)). toktext (deref h b) \<noteq> []) \<Longrightarrow>
   segs \<noteq> [] \<or> (\<forall>a \<in> set syns. toktext a \<noteq> []) \<Longrightarrow>
   \<forall>a \<in> set syns'. toktext a \<noteq> []"
proof (induction segs arbitrary: syns hs)
  case Nil
  then show ?case by simp
next
  case (Cons s segs)
  from Cons.prems(2) obtain r where r: "token s = Some r" and t: "toktext (deref h r) \<noteq> []"
    and b: "\<forall>b \<in> set (synonyms (deref h r)). toktext (deref h b) \<noteq> []" by auto
  from Cons.prems(1) r have e: "expandSynonyms h segs (cartesianOf h r syns)
         (hs \<or> (syns \<noteq> [] \<and> length (synonyms (deref h r)) > 0)) = Inr (syns', hs')" by simp
  from Cons.prems(2) have g: "\<forall>s \<in> set segs. \<exists>r. token s = Some r \<and> toktext (deref h r) \<noteq> []
        \<and> (\<forall>b \<in> set (synonyms (deref h r)). toktext (deref h b) \<noteq> [])" by simp
  from cartesianOf_texts [OF t b]
  have "segs \<noteq> [] \<or> (\<forall>a \<in> set (cartesianOf h r syns). toktext a \<noteq> [])" by blast
  from Cons.IH [OF e g this] show ?case .
qed

lemma insertSynonyms_inv:
  "insertSynonyms src done todo (h, d) = Some (Inr (h', d')) \<Longrightarrow> heapInv h d \<Longrightarrow>
   src < length h \<Longrightarrow> \<forall>r \<in> set done \<union> set todo. r < length h \<Longrightarrow> distinct todo \<Longrightarrow>
   \<forall>r \<in> set todo. segments (h ! r) = [] \<Longrightarrow>
   heapInv h' d'
   \<and> (\<forall>r \<in> set todo. \<exists>h0 d0. heapInv h0 d0 \<and> length h0 = length h
          \<and> (\<forall>k. toktext (h0 ! k) = toktext (h ! k)) \<and> set (tokens d0) \<subseteq> set (tokens d')
          \<and> segmentWords h0 d0 (toktext (h ! r)) True = Some (Inr (segments (h' ! r))))"
proof (induction todo arbitrary: "done" h d)
  case Nil
  then show ?case by simp
next
  case (Cons r todo)
  from Cons.prems(1) obtain segs where
    sw: "segmentWords h d (toktext (h ! r)) True = Some (Inr segs)"
    by (auto split: option.splits sum.splits)
  define h1 where "h1 = h[r := (h ! r)\<lparr>segments := segments (h ! r) @ segs,
                                   synonyms := synonyms (h ! r) @ [Stored src]
                                                @ map Stored done @ map Stored todo\<rparr>]"
  define d1 where "d1 = addToken h1 d r"
  from Cons.prems(1) sw have
    ins: "insertSynonyms src (done @ [r]) todo (h1, d1) = Some (Inr (h', d'))"
    by (simp add: h1_def d1_def Let_def)
  from Cons.prems(5) have dt: "distinct todo" and rn: "r \<notin> set todo" by simp_all
  from Cons.prems(4) have rl: "r < length h" by simp
  note hi = heapInvD [OF Cons.prems(2)]
  have l1: "length h1 = length h" by (simp add: h1_def)
  have n1: "h1 ! k = h ! k" if "k \<noteq> r" for k using that by (simp add: h1_def)
  have t1: "toktext (h1 ! k) = toktext (h ! k)" for k
    using rl by (cases "k = r") (simp_all add: h1_def)
  from segmentWords_result [OF heapInv_dictOk [OF Cons.prems(2)], of "toktext (h ! r)" True] sw
    Cons.prems(2)
  have sv: "\<forall>s \<in> set segs. \<exists>tk. token s = Some tk \<and> validRef (length h) tk"
    by (auto simp: heapInv_def)
  have ok1: "tokenOk (length h1) (h1 ! k)" if "k < length h1" for k
  proof (cases "k = r")
    case False
    with that hi(1) [of k] show ?thesis by (simp add: n1 l1)
  next
    case True
    from hi(1) [OF rl] have o: "tokenOk (length h) (h ! r)" .
    from Cons.prems(3,4) have "list_all (validRef (length h))
        ([Stored src] @ map Stored done @ map Stored todo)" by (auto simp: list_all_iff)
    with o sv rl True show ?thesis
      by (auto simp: h1_def tokenOk_def list_all_iff split: option.splits)
  qed
  have inv1: "heapInv h1 d1"
  proof (rule heapInvI)
    fix k assume "k < length h1"
    then show "tokenOk (length h1) (h1 ! k)" by (rule ok1)
  next
    fix i assume "i \<in> set (tokens d1)"
    with addToken_tokens [of h1 d r] have "i \<in> set (tokens d) \<or> i = r" by (auto simp: d1_def)
    with hi(2) rl show "i < length h1" by (auto simp: l1)
  next
    from hi(3) show "distinct (tokens d1)" unfolding d1_def by (rule addToken_distinct)
  qed
  from Cons.prems(3) have s1: "src < length h1" by (simp add: l1)
  from Cons.prems(4) have v1: "\<forall>r' \<in> set (done @ [r]) \<union> set todo. r' < length h1"
    by (auto simp: l1)
  have g1: "\<forall>r' \<in> set todo. segments (h1 ! r') = []"
  proof
    fix r' assume m: "r' \<in> set todo"
    with rn have "r' \<noteq> r" by blast
    from n1 [OF this] Cons.prems(6) m show "segments (h1 ! r') = []" by simp
  qed
  from Cons.IH [OF ins inv1 s1 v1 dt g1] have inv': "heapInv h' d'"
    and st: "\<forall>r' \<in> set todo. \<exists>h0 d0. heapInv h0 d0 \<and> length h0 = length h1
          \<and> (\<forall>k. toktext (h0 ! k) = toktext (h1 ! k)) \<and> set (tokens d0) \<subseteq> set (tokens d')
          \<and> segmentWords h0 d0 (toktext (h1 ! r')) True = Some (Inr (segments (h' ! r')))"
    by blast+
  have "\<exists>h0 d0. heapInv h0 d0 \<and> length h0 = length h
          \<and> (\<forall>k. toktext (h0 ! k) = toktext (h ! k)) \<and> set (tokens d0) \<subseteq> set (tokens d')
          \<and> segmentWords h0 d0 (toktext (h ! r')) True = Some (Inr (segments (h' ! r')))"
    if "r' \<in> set (r # todo)" for r'
  proof (cases "r' = r")
    case True
    from insertSynonyms_untouched [OF ins rn] have "h' ! r = h1 ! r" .
    with Cons.prems(6) rl have "segments (h' ! r) = segs" by (simp add: h1_def)
    moreover from insertSynonyms_struct [OF Cons.prems(1,5)]
    have "set (tokens d) \<subseteq> set (tokens d')" by blast
    ultimately show ?thesis using Cons.prems(2) sw True by blast
  next
    case False
    with that st obtain h0 d0 where "heapInv h0 d0" and "length h0 = length h1"
      and "\<forall>k. toktext (h0 ! k) = toktext (h1 ! k)" and "set (tokens d0) \<subseteq> set (tokens d')"
      and "segmentWords h0 d0 (toktext (h1 ! r')) True = Some (Inr (segments (h' ! r')))"
      by auto
    then show ?thesis using t1 l1 by auto
  qed
  with inv' show ?case by blast
qed

lemma expandToken_inv:
  assumes "expandToken i (h, d) = Some (Inr (h', d'))" and "heapInv h d" and "i < length h"
    and "segments (h ! i) = []"
  shows "heapInv h' d'"
    and "segmentWords h d (toktext (h ! i)) True = Some (Inr (segments (h' ! i)))"
    and "\<forall>r \<in> set (tokens d'). r \<notin> set (tokens d) \<longrightarrow> stored h' d' r"
proof -
  from assms(1) obtain segs where
    sw: "segmentWords h d (toktext (h ! i)) True = Some (Inr segs)"
    by (auto simp: expandToken_def split: option.splits sum.splits)
  define h1 where "h1 = h[i := (h ! i)\<lparr>segments := segments (h ! i) @ segs\<rparr>]"
  note hi = heapInvD [OF assms(2)]
  have l1: "length h1 = length h" by (simp add: h1_def)
  have n1: "h1 ! k = h ! k" if "k \<noteq> i" for k using that by (simp add: h1_def)
  have t1: "toktext (h1 ! k) = toktext (h ! k)" for k
    using assms(3) by (cases "k = i") (simp_all add: h1_def)
  have sg: "segments (h1 ! i) = segs" using assms(3,4) by (simp add: h1_def)
  from segmentWords_result [OF heapInv_dictOk [OF assms(2)], of "toktext (h ! i)" True] sw
    assms(2)
  have sv: "\<forall>s \<in> set segs. \<exists>tk. token s = Some tk \<and> validRef (length h) tk"
    by (auto simp: heapInv_def)
  have ok1: "tokenOk (length h1) (h1 ! k)" if "k < length h1" for k
  proof (cases "k = i")
    case False
    with that hi(1) [of k] show ?thesis by (simp add: n1 l1)
  next
    case True
    from hi(1) [OF assms(3)] have "tokenOk (length h) (h ! i)" .
    with sv assms(3) True show ?thesis
      by (auto simp: h1_def tokenOk_def list_all_iff split: option.splits)
  qed
  have inv1: "heapInv h1 d"
  proof (rule heapInvI)
    fix k assume "k < length h1"
    then show "tokenOk (length h1) (h1 ! k)" by (rule ok1)
  next
    fix j assume "j \<in> set (tokens d)"
    with hi(2) show "j < length h1" by (simp add: l1)
  next
    from hi(3) show "distinct (tokens d)" .
  qed
  from assms(1) sw obtain syns has where
    es: "expandSynonyms h1 (segments (h1 ! i)) [seedToken (h1 ! i)] False = Inr (syns, has)"
    by (auto simp: expandToken_def h1_def Let_def split: sum.splits)
  have "heapInv h' d'
      \<and> segmentWords h d (toktext (h ! i)) True = Some (Inr (segments (h' ! i)))
      \<and> (\<forall>r \<in> set (tokens d'). r \<notin> set (tokens d) \<longrightarrow> stored h' d' r)"
  proof (cases has)
    case False
    with assms(1) sw es have "h' = h1" "d' = d"
      by (simp_all add: expandToken_def h1_def Let_def)
    with inv1 sw sg show ?thesis by simp
  next
    case True
    define refs where "refs = [length h1 ..< length h1 + length syns]"
    define h2 where "h2 = (h1 @ syns)[i := (h1 ! i)\<lparr>synonyms := map Stored refs\<rparr>]"
    from assms(1) sw es True have
      ins: "insertSynonyms i [] refs (h2, d) = Some (Inr (h', d'))"
      by (simp add: expandToken_def h1_def [symmetric] refs_def h2_def Let_def)
    have dr: "distinct refs" by (simp add: refs_def)
    have l2: "length h2 = length h + length syns" by (simp add: h2_def l1)
    from es have pl: "\<forall>a \<in> set syns. synonyms a = [] \<and> segments a = []"
      by (rule expandSynonyms_plain) (simp add: seedToken_def)
    from expandSynonyms_has [OF es True] have sne: "segments (h1 ! i) \<noteq> []" by simp
    have good: "\<forall>s \<in> set (segments (h1 ! i)). \<exists>r. token s = Some r
        \<and> toktext (deref h1 r) \<noteq> []
        \<and> (\<forall>b \<in> set (synonyms (deref h1 r)). toktext (deref h1 b) \<noteq> [])"
    proof
      fix s assume "s \<in> set (segments (h1 ! i))"
      with sg sv obtain r where r: "token s = Some r" and v: "validRef (length h1) r"
        by (auto simp: l1)
      from deref_ok [of h1 r] ok1 v r
      show "\<exists>r. token s = Some r \<and> toktext (deref h1 r) \<noteq> []
        \<and> (\<forall>b \<in> set (synonyms (deref h1 r)). toktext (deref h1 b) \<noteq> [])" by blast
    qed
    from sne have "segments (h1 ! i) \<noteq> [] \<or> (\<forall>a \<in> set [seedToken (h1 ! i)]. toktext a \<noteq> [])"
      by blast
    from expandSynonyms_texts [OF es good this] have tx: "\<forall>a \<in> set syns. toktext a \<noteq> []" .
    have p2: "h2 ! r = syns ! (r - length h)" if "length h \<le> r" "r < length h + length syns" for r
    proof -
      from that assms(3) have "r \<noteq> i" by simp
      with that show ?thesis by (simp add: h2_def nth_append l1)
    qed
    have ok2: "tokenOk (length h2) (h2 ! k)" if "k < length h2" for k
    proof (cases "k < length h")
      case False
      with that l2 have r: "length h \<le> k" "k < length h + length syns" by simp_all
      then have "syns ! (k - length h) \<in> set syns" by simp
      with pl tx p2 [OF r] show ?thesis by (simp add: tokenOk_def)
    next
      case kl: True
      show ?thesis
      proof (cases "k = i")
        case False
        with kl have "h2 ! k = h1 ! k" by (simp add: h2_def nth_append l1)
        moreover from kl ok1 have "tokenOk (length h1) (h1 ! k)" by (simp add: l1)
        ultimately show ?thesis using tokenOk_mono [of "length h1" "h1 ! k" "length h2"]
          by (simp add: l1 l2)
      next
        case True
        with kl have e: "h2 ! k = (h1 ! i)\<lparr>synonyms := map Stored refs\<rparr>"
          by (simp add: h2_def l1)
        from assms(3) ok1 have "tokenOk (length h1) (h1 ! i)" by (simp add: l1)
        then have "tokenOk (length h2) (h1 ! i)" by (rule tokenOk_mono) (simp add: l1 l2)
        moreover have "list_all (validRef (length h2)) (map Stored refs)"
          by (simp add: list_all_iff refs_def l1 l2)
        ultimately show ?thesis unfolding e by (simp add: tokenOk_def)
      qed
    qed
    have inv2: "heapInv h2 d"
    proof (rule heapInvI)
      fix k assume "k < length h2"
      then show "tokenOk (length h2) (h2 ! k)" by (rule ok2)
    next
      fix j assume "j \<in> set (tokens d)"
      with hi(2) show "j < length h2" by (simp add: l2 trans_less_add1)
    next
      from hi(3) show "distinct (tokens d)" .
    qed
    from assms(3) have i2: "i < length h2" by (simp add: l2)
    have v2: "\<forall>r \<in> set [] \<union> set refs. r < length h2" by (simp add: refs_def l1 l2)
    have g2: "\<forall>r \<in> set refs. segments (h2 ! r) = []"
    proof
      fix r assume "r \<in> set refs"
      then have r: "length h \<le> r" "r < length h + length syns" by (simp_all add: refs_def l1)
      then have "syns ! (r - length h) \<in> set syns" by simp
      with pl p2 [OF r] show "segments (h2 ! r) = []" by simp
    qed
    from insertSynonyms_inv [OF ins inv2 i2 v2 dr g2] have inv': "heapInv h' d'"
      and st: "\<forall>r \<in> set refs. \<exists>h0 d0. heapInv h0 d0 \<and> length h0 = length h2
          \<and> (\<forall>k. toktext (h0 ! k) = toktext (h2 ! k)) \<and> set (tokens d0) \<subseteq> set (tokens d')
          \<and> segmentWords h0 d0 (toktext (h2 ! r)) True = Some (Inr (segments (h' ! r)))"
      by blast+
    from insertSynonyms_struct [OF ins dr] have l: "length h' = length h2"
      and tx': "\<forall>k. toktext (h' ! k) = toktext (h2 ! k)" by blast+
    from insertSynonyms_frame [OF ins]
    have t: "set (tokens d') \<subseteq> set (tokens d) \<union> set refs" by blast
    from assms(3) have "i \<notin> set refs" by (simp add: refs_def l1)
    from insertSynonyms_untouched [OF ins this] have "h' ! i = h2 ! i" .
    with assms(3) have "segments (h' ! i) = segments (h1 ! i)" by (simp add: h2_def l1)
    with sw sg have a: "segmentWords h d (toktext (h ! i)) True = Some (Inr (segments (h' ! i)))"
      by simp
    have b: "stored h' d' r" if "r \<in> set (tokens d')" "r \<notin> set (tokens d)" for r
    proof -
      from that t have "r \<in> set refs" by auto
      with st obtain h0 d0 where i0: "heapInv h0 d0" and l0: "length h0 = length h2"
        and t0: "\<forall>k. toktext (h0 ! k) = toktext (h2 ! k)"
        and k0: "set (tokens d0) \<subseteq> set (tokens d')"
        and s0: "segmentWords h0 d0 (toktext (h2 ! r)) True = Some (Inr (segments (h' ! r)))"
        by blast
      have "earlier h0 d0 h' d'"
        by (rule earlierI) (simp_all add: l0 l t0 tx' k0)
      moreover from s0 tx' have
        "segmentWords h0 d0 (toktext (h' ! r)) True = Some (Inr (segments (h' ! r)))" by simp
      ultimately show ?thesis using i0 unfolding stored_def by blast
    qed
    from inv' a b show ?thesis by blast
  qed
  then show "heapInv h' d'"
    and "segmentWords h d (toktext (h ! i)) True = Some (Inr (segments (h' ! i)))"
    and "\<forall>r \<in> set (tokens d'). r \<notin> set (tokens d) \<longrightarrow> stored h' d' r" by blast+
qed

lemma expandAll_inv:
  "expandAll is (h, d) = Some (Inr (h', d')) \<Longrightarrow> heapInv h d \<Longrightarrow> distinct is \<Longrightarrow>
   \<forall>i \<in> set is. i < length h \<and> segments (h ! i) = [] \<Longrightarrow>
   \<forall>k \<in> set (tokens d). k \<notin> set is \<longrightarrow> stored h d k \<Longrightarrow>
   heapInv h' d' \<and> (\<forall>k \<in> set (tokens d'). stored h' d' k)"
proof (induction "is" arbitrary: h d)
  case Nil
  then show ?case by simp
next
  case (Cons i rest)
  from Cons.prems(1) obtain h1 d1 where
    e1: "expandToken i (h, d) = Some (Inr (h1, d1))"
    and e2: "expandAll rest (h1, d1) = Some (Inr (h', d'))"
    by (auto split: option.splits sum.splits)
  from Cons.prems(4) have il: "i < length h" and ig: "segments (h ! i) = []" by simp_all
  from Cons.prems(3) have dr: "distinct rest" and ir: "i \<notin> set rest" by simp_all
  note s = expandToken_struct [OF e1 il]
  note v = expandToken_inv [OF e1 Cons.prems(2) il ig]
  note hi = heapInvD [OF Cons.prems(2)]
  have ea: "earlier h d h1 d1"
    by (rule earlierI) (use s in simp_all)
  have r1: "\<forall>j \<in> set rest. j < length h1 \<and> segments (h1 ! j) = []"
  proof
    fix j assume m: "j \<in> set rest"
    with Cons.prems(4) have jl: "j < length h" and jg: "segments (h ! j) = []" by simp_all
    from m ir have "j \<noteq> i" by blast
    with s(2) jl have "h1 ! j = h ! j" by simp
    with jl jg s(1) show "j < length h1 \<and> segments (h1 ! j) = []" by simp
  qed
  have st1: "\<forall>k \<in> set (tokens d1). k \<notin> set rest \<longrightarrow> stored h1 d1 k"
  proof (intro ballI impI)
    fix k assume k: "k \<in> set (tokens d1)" "k \<notin> set rest"
    show "stored h1 d1 k"
    proof (cases "k \<in> set (tokens d)")
      case False
      with v(3) k(1) show ?thesis by blast
    next
      case True
      show ?thesis
      proof (cases "k = i")
        case ki: True
        from s(3) il have "toktext (h1 ! i) = toktext (h ! i)" by simp
        with v(2) have "segmentWords h d (toktext (h1 ! i)) True = Some (Inr (segments (h1 ! i)))"
          by simp
        with Cons.prems(2) ea ki show ?thesis unfolding stored_def by blast
      next
        case False
        with k(2) have "k \<notin> set (i # rest)" by simp
        with Cons.prems(5) True have sk: "stored h d k" by blast
        from hi(2) [OF True] False s(2) have "h1 ! k = h ! k" by simp
        with stored_mono [OF sk ea] show ?thesis by simp
      qed
    qed
  qed
  from Cons.IH [OF e2 v(1) dr r1 st1] show ?case .
qed

lemma assignDistances_shape:
  "length (assignDistances h d) = length h
   \<and> (\<forall>k < length h. \<exists>x. assignDistances h d ! k = (h ! k)\<lparr>distance := x\<rparr>)"
proof -
  have "length (foldl (\<lambda>h' i. h'[i := (h' ! i)\<lparr>distance := f h' i\<rparr>]) h xs) = length h
      \<and> (\<forall>k < length h. \<exists>x. foldl (\<lambda>h' i. h'[i := (h' ! i)\<lparr>distance := f h' i\<rparr>]) h xs ! k
                               = (h ! k)\<lparr>distance := x\<rparr>)" for f xs
  proof (induction xs rule: rev_induct)
    case Nil
    have "\<exists>x. h ! k = (h ! k)\<lparr>distance := x\<rparr>" for k
      by (rule exI [of _ "distance (h ! k)"]) simp
    then show ?case by simp
  next
    case (snoc i xs)
    let ?g = "foldl (\<lambda>h' i. h'[i := (h' ! i)\<lparr>distance := f h' i\<rparr>]) h xs"
    from snoc have l: "length ?g = length h"
      and p: "\<forall>k < length h. \<exists>x. ?g ! k = (h ! k)\<lparr>distance := x\<rparr>" by blast+
    have "\<exists>x. (?g[i := (?g ! i)\<lparr>distance := f ?g i\<rparr>]) ! k = (h ! k)\<lparr>distance := x\<rparr>"
      if "k < length h" for k
    proof (cases "k = i")
      case True
      from p that obtain x where "?g ! k = (h ! k)\<lparr>distance := x\<rparr>" by blast
      with that l True have "(?g[i := (?g ! i)\<lparr>distance := f ?g i\<rparr>]) ! k
                             = (h ! k)\<lparr>distance := f ?g i\<rparr>" by simp
      then show ?thesis by blast
    next
      case False
      with p that show ?thesis by simp
    qed
    with l show ?case by simp
  qed
  then show ?thesis by (simp add: assignDistances_def Let_def)
qed

lemma assignDistances_heapInv:
  assumes "heapInv h d" and "\<forall>tk \<in> set h. segments tk = []"
  shows "heapInv (assignDistances h d) d"
    and "\<forall>k < length h. segments (assignDistances h d ! k) = []"
proof -
  note a = assignDistances_shape [of h d]
  note hi = heapInvD [OF assms(1)]
  show "heapInv (assignDistances h d) d"
  proof (rule heapInvI)
    fix k assume "k < length (assignDistances h d)"
    with a have kl: "k < length h" by simp
    with a obtain x where "assignDistances h d ! k = (h ! k)\<lparr>distance := x\<rparr>" by blast
    with hi(1) [OF kl] a show "tokenOk (length (assignDistances h d)) (assignDistances h d ! k)"
      by (simp add: tokenOk_def)
  next
    fix i assume "i \<in> set (tokens d)"
    with hi(2) a show "i < length (assignDistances h d)" by simp
  next
    from hi(3) show "distinct (tokens d)" .
  qed
  show "\<forall>k < length h. segments (assignDistances h d ! k) = []"
  proof (intro allI impI)
    fix k assume kl: "k < length h"
    with a obtain x where "assignDistances h d ! k = (h ! k)\<lparr>distance := x\<rparr>" by blast
    moreover from kl assms(2) have "segments (h ! k) = []" by simp
    ultimately show "segments (assignDistances h d ! k) = []" by simp
  qed
qed

lemma LoadDictionary_inv:
  assumes "LoadDictionary U lines = Some (Inr (h, d))"
  shows "heapInv h d" and "\<forall>k \<in> set (tokens d). stored h d k"
proof -
  obtain h0 d0 where l: "foldl (loadLine U) ([], NewDictionary) lines = (h0, d0)"
    by (cases "foldl (loadLine U) ([], NewDictionary) lines")
  from loadLines_heapInv [OF heapInv_empty _ l] have i0: "heapInv h0 d0"
    and g0: "\<forall>tk \<in> set h0. segments tk = []" by simp_all
  let ?ha = "assignDistances h0 d0"
  note a = assignDistances_heapInv [OF i0 g0]
  note hi = heapInvD [OF a(1)]
  from assms l have e: "expandAll (tokens d0) (?ha, d0) = Some (Inr (h, d))"
    by (simp add: LoadDictionary_def deriveAll_def)
  have "\<forall>i \<in> set (tokens d0). i < length ?ha \<and> segments (?ha ! i) = []"
    using hi(2) a(2) assignDistances_shape [of h0 d0] by simp
  from expandAll_inv [OF e a(1) hi(3) this]
  show "heapInv h d" and "\<forall>k \<in> set (tokens d). stored h d k" by simp_all
qed

lemma LoadDictionary_dictOk: "LoadDictionary U lines = Some (Inr (h, d)) \<Longrightarrow> dictOk h d"
  by (rule heapInv_dictOk) (rule LoadDictionary_inv)

lemma subSpanOk_later:
  assumes "subSpanOk h0 t s" and "token s = Some tk" and "validRef (length h0) tk"
    and "earlier h0 d0 h d"
  shows "subSpanOk h t s"
proof -
  have "toktext (deref h tk) = toktext (deref h0 tk)"
  proof (cases tk)
    case (Stored j)
    with assms(3) earlierD(2) [OF assms(4), of j] show ?thesis by simp
  next
    case (Synthetic a)
    then show ?thesis by simp
  qed
  with assms(1,2) show ?thesis by (simp add: subSpanOk_def)
qed

lemma loaded_subsegments:
  assumes "LoadDictionary U lines = Some (Inr (h, d))" and "dictToken d tk"
  shows "\<exists>h0 d0. earlier h0 d0 h d
           \<and> segmentWords h0 d0 (toktext (deref h tk)) True
               = Some (Inr (segments (deref h tk)))
           \<and> (\<forall>ss \<in> set (segments (deref h tk)). subSpanOk h (toktext (deref h tk)) ss)"
proof (cases tk)
  case (Synthetic a)
  have "segmentWords h d [a] True = Some (Inr [])" by (simp add: segmentWords_def)
  with Synthetic earlier_refl [of h d] show ?thesis by (auto simp: fallbackToken_def)
next
  case (Stored i)
  with assms(2) have "i \<in> set (tokens d)" by (simp add: dictToken_def)
  with LoadDictionary_inv(2) [OF assms(1)] obtain h0 d0 where i0: "heapInv h0 d0"
    and ea: "earlier h0 d0 h d"
    and sw: "segmentWords h0 d0 (toktext (h ! i)) True = Some (Inr (segments (h ! i)))"
    unfolding stored_def by blast
  from segmentWords_result [OF heapInv_dictOk [OF i0], of "toktext (h ! i)" True] sw i0
  have r: "\<forall>s \<in> set (segments (h ! i)). subSpanOk h0 (toktext (h ! i)) s
                  \<and> (\<exists>tk. token s = Some tk \<and> validRef (length h0) tk)"
    by (auto simp: heapInv_def)
  have "subSpanOk h (toktext (h ! i)) ss" if "ss \<in> set (segments (h ! i))" for ss
  proof -
    from r that obtain tk' where "subSpanOk h0 (toktext (h ! i)) ss"
      and "token ss = Some tk'" and "validRef (length h0) tk'" by blast
    then show ?thesis using ea by (rule subSpanOk_later)
  qed
  with ea sw Stored show ?thesis by auto
qed

text \<open>
  C7: when lines 141-219 return, every token \<open>r\<close> the expansion has inserted into the
  dictionary (a reference of the dictionary afterwards that was not one before) was made in
  the iteration of the loop of line 149 for one token \<open>i = tokens ! k\<close> of the dictionary, its
  source. \<open>h0\<close> and \<open>d0\<close> are the store and the dictionary when the loop reaches \<open>i\<close>, \<open>segs\<close>
  the sub-segments of \<open>i\<close> computed there (line 153) and \<open>syns\<close> the products that lines 158-198
  make of the sub-segments of \<open>i\<close>, seeded with the frequency, distance and part of speech of
  \<open>i\<close>. The token \<open>r\<close> is allocated for one of these products and has its atoms, its first
  synonym is \<open>i\<close> (line 211), and when the loader returns its frequency, distance and part of
  speech are those of \<open>i\<close>. These are the frequency and part of speech \<open>i\<close> was read with, and
  the distance that lines 141-146 assigned to \<open>i\<close> from the total frequency before any product
  was inserted (\<open>totalFrequency d\<close>, not that of the dictionary returned).
\<close>

theorem product_tokens_inherit:
  assumes "deriveAll h d = Some (Inr (h', d'))"
    and "list_all (\<lambda>i. i < length h) (tokens d)"
    and "r \<in> set (tokens d')" and "r \<notin> set (tokens d)"
  shows "\<exists>k < length (tokens d). \<exists>h0 d0 segs syns.
           expandAll (take k (tokens d)) (assignDistances h d, d) = Some (Inr (h0, d0))
         \<and> segmentWords h0 d0 (toktext (h0 ! (tokens d ! k))) True = Some (Inr segs)
         \<and> expandSynonyms
              (h0[tokens d ! k := (h0 ! (tokens d ! k))
                    \<lparr>segments := segments (h0 ! (tokens d ! k)) @ segs\<rparr>])
              (segments (h0 ! (tokens d ! k)) @ segs) [seedToken (h0 ! (tokens d ! k))] False
            = Inr (syns, True)
         \<and> length h0 \<le> r \<and> r < length h0 + length syns
         \<and> toktext (h' ! r) = toktext (syns ! (r - length h0))
         \<and> synonyms (h' ! r) \<noteq> [] \<and> hd (synonyms (h' ! r)) = Stored (tokens d ! k)
         \<and> frequency (h' ! r) = frequency (h' ! (tokens d ! k))
         \<and> distance (h' ! r) = distance (h' ! (tokens d ! k))
         \<and> pos (h' ! r) = pos (h' ! (tokens d ! k))
         \<and> frequency (h' ! (tokens d ! k)) = frequency (h ! (tokens d ! k))
         \<and> pos (h' ! (tokens d ! k)) = pos (h ! (tokens d ! k))
         \<and> distance (h' ! (tokens d ! k)) = distance (assignDistances h d ! (tokens d ! k))
         \<and> distance (h' ! r)
             = float32 (float32 (log 2 (real_of_int (totalFrequency d)))
                        - float32 (log 2 (real_of_int (frequency (h ! (tokens d ! k))))))"
proof -
  let ?ha = "assignDistances h d"
  note ad = assignDistances_fields [OF assms(2)]
  from assms(1) have e: "expandAll (tokens d) (?ha, d) = Some (Inr (h', d'))"
    by (simp add: deriveAll_def)
  from assms(2) ad(1) have v: "\<forall>i \<in> set (tokens d). i < length ?ha" by (simp add: list_all_iff)
  from expandAll_frame [OF e v] have
    f: "\<forall>k < length ?ha. sameFields (h' ! k) (?ha ! k)" by blast
  from expandAll_source [OF e v assms(3,4)] obtain k h0 d0 segs syns where
    k: "k < length (tokens d)"
    and p: "expandAll (take k (tokens d)) (?ha, d) = Some (Inr (h0, d0))"
    and sw: "segmentWords h0 d0 (toktext (h0 ! (tokens d ! k))) True = Some (Inr segs)"
    and es: "expandSynonyms
              (h0[tokens d ! k := (h0 ! (tokens d ! k))
                    \<lparr>segments := segments (h0 ! (tokens d ! k)) @ segs\<rparr>])
              (segments (h0 ! (tokens d ! k)) @ segs) [seedToken (h0 ! (tokens d ! k))] False
            = Inr (syns, True)"
    and r: "length h0 \<le> r" "r < length h0 + length syns"
    and tx: "toktext (h' ! r) = toktext (syns ! (r - length h0))"
    and sy: "synonyms (h' ! r) \<noteq> []" "hd (synonyms (h' ! r)) = Stored (tokens d ! k)"
    and sf: "sameFields (h' ! r) (?ha ! (tokens d ! k))" by blast
  let ?i = "tokens d ! k"
  from k v have il: "?i < length h" by (simp add: ad(1))
  with f have s: "sameFields (h' ! ?i) (?ha ! ?i)" by (simp add: ad(1))
  from k have im: "?i \<in> set (tokens d)" by simp
  from sf s ad(2) [OF il] ad(3) [OF il] ad(4) [OF im]
  have "frequency (h' ! r) = frequency (h' ! ?i) \<and> distance (h' ! r) = distance (h' ! ?i)
      \<and> pos (h' ! r) = pos (h' ! ?i) \<and> frequency (h' ! ?i) = frequency (h ! ?i)
      \<and> pos (h' ! ?i) = pos (h ! ?i) \<and> distance (h' ! ?i) = distance (?ha ! ?i)
      \<and> distance (h' ! r)
             = float32 (float32 (log 2 (real_of_int (totalFrequency d)))
                        - float32 (log 2 (real_of_int (frequency (h ! ?i)))))"
    by (simp add: sameFields_def)
  with k p sw es r tx sy show ?thesis by blast
qed

theorem product_tokens_inherit_witness:
  "deriveAll loadedHeap synDict = Some (Inr (expandedHeap, expandedDict)) \<and>
   list_all (\<lambda>i. i < length loadedHeap) (tokens synDict) \<and>
   3 \<in> set (tokens expandedDict) \<and> 3 \<notin> set (tokens synDict) \<and>
   totalFrequency synDict = 16 \<and> totalFrequency expandedDict = 24 \<and>
   toktext (expandedHeap ! 3) = [''y'', ''z''] \<and> distance (expandedHeap ! 3) = 1 \<and>
   (\<exists>k < length (tokens synDict). \<exists>h0 d0 segs syns.
           expandAll (take k (tokens synDict)) (assignDistances loadedHeap synDict, synDict)
             = Some (Inr (h0, d0))
         \<and> segmentWords h0 d0 (toktext (h0 ! (tokens synDict ! k))) True = Some (Inr segs)
         \<and> expandSynonyms
              (h0[tokens synDict ! k := (h0 ! (tokens synDict ! k))
                    \<lparr>segments := segments (h0 ! (tokens synDict ! k)) @ segs\<rparr>])
              (segments (h0 ! (tokens synDict ! k)) @ segs)
              [seedToken (h0 ! (tokens synDict ! k))] False
            = Inr (syns, True)
         \<and> length h0 \<le> 3 \<and> 3 < length h0 + length syns
         \<and> toktext (expandedHeap ! 3) = toktext (syns ! (3 - length h0))
         \<and> synonyms (expandedHeap ! 3) \<noteq> []
         \<and> hd (synonyms (expandedHeap ! 3)) = Stored (tokens synDict ! k)
         \<and> frequency (expandedHeap ! 3) = frequency (expandedHeap ! (tokens synDict ! k))
         \<and> distance (expandedHeap ! 3) = distance (expandedHeap ! (tokens synDict ! k))
         \<and> pos (expandedHeap ! 3) = pos (expandedHeap ! (tokens synDict ! k))
         \<and> frequency (expandedHeap ! (tokens synDict ! k))
             = frequency (loadedHeap ! (tokens synDict ! k))
         \<and> pos (expandedHeap ! (tokens synDict ! k)) = pos (loadedHeap ! (tokens synDict ! k))
         \<and> distance (expandedHeap ! (tokens synDict ! k))
             = distance (assignDistances loadedHeap synDict ! (tokens synDict ! k))
         \<and> distance (expandedHeap ! 3)
             = float32 (float32 (log 2 (real_of_int (totalFrequency synDict)))
                        - float32 (log 2 (real_of_int
                                            (frequency (loadedHeap ! (tokens synDict ! k)))))))"
proof -
  have v: "list_all (\<lambda>i. i < length loadedHeap) (tokens synDict)"
    by (simp add: loadedHeap_def synDict_def)
  have m: "3 \<in> set (tokens expandedDict)" by (simp add: expandedDict_def)
  have n: "3 \<notin> set (tokens synDict)" by (simp add: synDict_def)
  have f: "totalFrequency synDict = 16 \<and> totalFrequency expandedDict = 24
         \<and> toktext (expandedHeap ! 3) = [''y'', ''z''] \<and> distance (expandedHeap ! 3) = 1"
    by (simp add: synDict_def expandedDict_def expandedHeap_def)
  from product_tokens_inherit [OF deriveAll_example v m n] deriveAll_example v m n f
  show ?thesis by blast
qed

text \<open>
  C10: let \<open>h\<close> and \<open>d\<close> be the store and the dictionary that \<open>LoadDictionary\<close> returns, and
  \<open>s\<close> a segment whose token \<open>tk\<close> is a token of the dictionary or a fallback token. When
  \<open>SegmentsSpread\<close> returns on \<open>s\<close> followed by \<open>rest\<close>, its output is the spread of the stored
  sub-segments of \<open>tk\<close>, then one segment per synonym with the \<open>start\<close> and \<open>end\<close> of \<open>s\<close>, then
  \<open>s\<close>, then the spread of \<open>rest\<close>. Every stored sub-segment occurs in the output as it is
  stored. The stored sub-segments are the value that \<open>segmentWords(token.text, true)\<close> had on
  an earlier state of the store and the dictionary, at load time, and the \<open>start\<close> and \<open>end\<close> of
  each are byte offsets into the text of \<open>tk\<close> itself: the bytes of that text between them are
  the bytes of the sub-segment's token. Moving \<open>s\<close> to any other \<open>start\<close> and \<open>end\<close> changes the
  synonym segments and \<open>s\<close> only: the sub-segments are not re-based.
\<close>

theorem SegmentsSpread_subsegments_verbatim:
  assumes "LoadDictionary U lines = Some (Inr (h, d))"
    and "token s = Some tk" and "dictToken d tk"
    and "SegmentsSpread depth h (s # rest) = Some (Inr out)"
  shows "\<exists>sub more.
           SegmentsSpread (depth - 1) h (segments (deref h tk)) = Some (Inr sub)
         \<and> SegmentsSpread depth h rest = Some (Inr more)
         \<and> out = sub @ map (\<lambda>t. \<lparr>start = start s, endp = endp s, token = Some t\<rparr>)
                          (synonyms (deref h tk)) @ [s] @ more
         \<and> set (segments (deref h tk)) \<subseteq> set sub
         \<and> (\<exists>h0 d0. earlier h0 d0 h d
               \<and> segmentWords h0 d0 (toktext (deref h tk)) True
                   = Some (Inr (segments (deref h tk))))
         \<and> (\<forall>ss \<in> set (segments (deref h tk)). subSpanOk h (toktext (deref h tk)) ss)
         \<and> (\<forall>a b. SegmentsSpread depth h (s\<lparr>start := a, endp := b\<rparr> # rest)
                  = Some (Inr (sub @ map (\<lambda>t. \<lparr>start = a, endp = b, token = Some t\<rparr>)
                                      (synonyms (deref h tk))
                               @ [s\<lparr>start := a, endp := b\<rparr>] @ more)))"
proof (cases depth)
  case 0
  with assms(4) show ?thesis by simp
next
  case (Suc n)
  with assms(2,4) obtain sub more where
    sub: "SegmentsSpread n h (segments (deref h tk)) = Some (Inr sub)"
    and more: "SegmentsSpread (Suc n) h rest = Some (Inr more)"
    and out: "out = sub @ map (\<lambda>t. \<lparr>start = start s, endp = endp s, token = Some t\<rparr>)
                          (synonyms (deref h tk)) @ [s] @ more"
    by (auto split: option.splits sum.splits)
  have c: "set (segments (deref h tk)) \<subseteq> set sub" by (rule SegmentsSpread_contains [OF sub])
  have m: "SegmentsSpread depth h (s\<lparr>start := a, endp := b\<rparr> # rest)
                    = Some (Inr (sub @ map (\<lambda>t. \<lparr>start = a, endp = b, token = Some t\<rparr>)
                                        (synonyms (deref h tk))
                                 @ [s\<lparr>start := a, endp := b\<rparr>] @ more))" for a b
    using Suc assms(2) sub more by simp
  from loaded_subsegments [OF assms(1,3)] have
    l: "\<exists>h0 d0. earlier h0 d0 h d
               \<and> segmentWords h0 d0 (toktext (deref h tk)) True
                   = Some (Inr (segments (deref h tk)))"
    and o: "\<forall>ss \<in> set (segments (deref h tk)). subSpanOk h (toktext (deref h tk)) ss"
    by blast+
  from Suc sub more out c l o m show ?thesis by simp
qed

theorem SegmentsSpread_subsegments_verbatim_witness:
  "LoadDictionary latin1Tables [''x 4 p0|y 4 p1'', ''x z 8 p2'']
     = Some (Inr (expandedHeap, expandedDict)) \<and>
   dictToken expandedDict (Stored 2) \<and>
   SegmentsSpread 2 expandedHeap [\<lparr>start = 1, endp = 3, token = Some (Stored 2)\<rparr>]
     = Some (Inr [\<lparr>start = 0, endp = 1, token = Some (Stored 1)\<rparr>,
                  \<lparr>start = 0, endp = 1, token = Some (Stored 0)\<rparr>,
                  \<lparr>start = 1, endp = 2, token = Some (Synthetic ''z'')\<rparr>,
                  \<lparr>start = 1, endp = 3, token = Some (Stored 3)\<rparr>,
                  \<lparr>start = 1, endp = 3, token = Some (Stored 2)\<rparr>]) \<and>
   segments (expandedHeap ! 2)
     = [\<lparr>start = 0, endp = 1, token = Some (Stored 0)\<rparr>,
        \<lparr>start = 1, endp = 2, token = Some (Synthetic ''z'')\<rparr>] \<and>
   (\<exists>sub more.
       SegmentsSpread (2 - 1) expandedHeap (segments (deref expandedHeap (Stored 2)))
         = Some (Inr sub)
     \<and> SegmentsSpread 2 expandedHeap [] = Some (Inr more)
     \<and> [\<lparr>start = 0, endp = 1, token = Some (Stored 1)\<rparr>,
         \<lparr>start = 0, endp = 1, token = Some (Stored 0)\<rparr>,
         \<lparr>start = 1, endp = 2, token = Some (Synthetic ''z'')\<rparr>,
         \<lparr>start = 1, endp = 3, token = Some (Stored 3)\<rparr>,
         \<lparr>start = 1, endp = 3, token = Some (Stored 2)\<rparr>]
        = sub @ map (\<lambda>t. \<lparr>start = start \<lparr>start = 1, endp = 3, token = Some (Stored 2)\<rparr>,
                           endp = endp \<lparr>start = 1, endp = 3, token = Some (Stored 2)\<rparr>,
                           token = Some t\<rparr>)
                    (synonyms (deref expandedHeap (Stored 2)))
            @ [\<lparr>start = 1, endp = 3, token = Some (Stored 2)\<rparr>] @ more
     \<and> set (segments (deref expandedHeap (Stored 2))) \<subseteq> set sub
     \<and> (\<exists>h0 d0. earlier h0 d0 expandedHeap expandedDict
           \<and> segmentWords h0 d0 (toktext (deref expandedHeap (Stored 2))) True
               = Some (Inr (segments (deref expandedHeap (Stored 2)))))
     \<and> (\<forall>ss \<in> set (segments (deref expandedHeap (Stored 2))).
            subSpanOk expandedHeap (toktext (deref expandedHeap (Stored 2))) ss)
     \<and> (\<forall>a b. SegmentsSpread 2 expandedHeap
                 (\<lparr>start = 1, endp = 3, token = Some (Stored 2)\<rparr>\<lparr>start := a, endp := b\<rparr> # [])
               = Some (Inr (sub @ map (\<lambda>t. \<lparr>start = a, endp = b, token = Some t\<rparr>)
                                   (synonyms (deref expandedHeap (Stored 2)))
                            @ [\<lparr>start = 1, endp = 3, token = Some (Stored 2)\<rparr>
                                 \<lparr>start := a, endp := b\<rparr>] @ more))))"
proof -
  have l: "LoadDictionary latin1Tables [''x 4 p0|y 4 p1'', ''x z 8 p2'']
             = Some (Inr (expandedHeap, expandedDict))" by (rule LoadDictionary_syn)
  have t: "token \<lparr>start = 1, endp = 3, token = Some (Stored 2)\<rparr> = Some (Stored 2)" by simp
  have m: "dictToken expandedDict (Stored 2)" by (simp add: dictToken_def expandedDict_def)
  have e: "SegmentsSpread 2 expandedHeap [\<lparr>start = 1, endp = 3, token = Some (Stored 2)\<rparr>]
     = Some (Inr [\<lparr>start = 0, endp = 1, token = Some (Stored 1)\<rparr>,
                  \<lparr>start = 0, endp = 1, token = Some (Stored 0)\<rparr>,
                  \<lparr>start = 1, endp = 2, token = Some (Synthetic ''z'')\<rparr>,
                  \<lparr>start = 1, endp = 3, token = Some (Stored 3)\<rparr>,
                  \<lparr>start = 1, endp = 3, token = Some (Stored 2)\<rparr>])"
    by (simp add: expandedHeap_def fallbackToken_def numeral_2_eq_2)
  have g: "segments (expandedHeap ! 2)
     = [\<lparr>start = 0, endp = 1, token = Some (Stored 0)\<rparr>,
        \<lparr>start = 1, endp = 2, token = Some (Synthetic ''z'')\<rparr>]"
    by (simp add: expandedHeap_def)
  from SegmentsSpread_subsegments_verbatim [OF l t m e] l m e g show ?thesis by blast
qed

end
